theory Spec2Isabelle
  imports Complex_Main
begin

section \<open>JavaScript strings and integer rendering\<close>

text \<open>
  A JavaScript string is a sequence of UTF-16 code units; a code unit is modelled by a
  natural number. Glyph names, which the source only compares and looks up, are kept as
  HOL strings. \<open>js\<close> embeds an ASCII literal as a JavaScript string.
\<close>

type_synonym jsstring = "nat list"

definition js :: "string \<Rightarrow> jsstring" where
  "js s = map of_char s"

text \<open>The digit characters \<open>0-9a-z\<close> of \<open>Number.prototype.toString(radix)\<close>.\<close>

definition digit_char :: "nat \<Rightarrow> nat" where
  "digit_char d = (if d < 10 then 48 + d else 87 + d)"

text \<open>
  \<open>n.toString(radix)\<close> on a non-negative integer: most significant digit first, no
  padding, the single digit \<open>0\<close> for zero.
\<close>

function toStringRadix :: "nat \<Rightarrow> nat \<Rightarrow> jsstring" where
  "toStringRadix b n =
     (if n < b \<or> b < 2 then [digit_char n]
      else toStringRadix b (n div b) @ [digit_char (n mod b)])"
  by pat_completeness auto
termination
  by (relation "measure (\<lambda>(b, n). n)") auto

declare toStringRadix.simps [simp del]

abbreviation toString16 :: "nat \<Rightarrow> jsstring" where
  "toString16 \<equiv> toStringRadix 16"

abbreviation toString10 :: "nat \<Rightarrow> jsstring" where
  "toString10 \<equiv> toStringRadix 10"

section \<open>AFMFont: the encoding of the standard fonts\<close>

text \<open>\<open>getUTF16Increment\<close>: the number of code units a code point occupies.\<close>

definition getUTF16Increment :: "nat \<Rightarrow> nat" where
  "getUTF16Increment codePoint = (if codePoint > 0xffff then 2 else 1)"

definition WIN_ANSI_MAP :: "(nat \<times> nat) list" where
  "WIN_ANSI_MAP =
    [(402, 131), (8211, 150), (8212, 151), (8216, 145), (8217, 146), (8218, 130),
     (8220, 147), (8221, 148), (8222, 132), (8224, 134), (8225, 135), (8226, 149),
     (8230, 133), (8364, 128), (8240, 137), (8249, 139), (8250, 155), (710, 136),
     (8482, 153), (338, 140), (339, 156), (732, 152), (352, 138), (353, 154),
     (376, 159), (381, 142), (382, 158)]"

text \<open>The glyph names of the 256 slots of the encoding, in slot order, four to a row as the
  source lists them.\<close>

definition characters :: "string list" where
  "characters = concat
  [[''.notdef'', ''.notdef'', ''.notdef'', ''.notdef''],
   [''.notdef'', ''.notdef'', ''.notdef'', ''.notdef''],
   [''.notdef'', ''.notdef'', ''.notdef'', ''.notdef''],
   [''.notdef'', ''.notdef'', ''.notdef'', ''.notdef''],
   [''.notdef'', ''.notdef'', ''.notdef'', ''.notdef''],
   [''.notdef'', ''.notdef'', ''.notdef'', ''.notdef''],
   [''.notdef'', ''.notdef'', ''.notdef'', ''.notdef''],
   [''.notdef'', ''.notdef'', ''.notdef'', ''.notdef''],
   [''space'', ''exclam'', ''quotedbl'', ''numbersign''],
   [''dollar'', ''percent'', ''ampersand'', ''quotesingle''],
   [''parenleft'', ''parenright'', ''asterisk'', ''plus''],
   [''comma'', ''hyphen'', ''period'', ''slash''],
   [''zero'', ''one'', ''two'', ''three''],
   [''four'', ''five'', ''six'', ''seven''],
   [''eight'', ''nine'', ''colon'', ''semicolon''],
   [''less'', ''equal'', ''greater'', ''question''],
   [''at'', ''A'', ''B'', ''C''],
   [''D'', ''E'', ''F'', ''G''],
   [''H'', ''I'', ''J'', ''K''],
   [''L'', ''M'', ''N'', ''O''],
   [''P'', ''Q'', ''R'', ''S''],
   [''T'', ''U'', ''V'', ''W''],
   [''X'', ''Y'', ''Z'', ''bracketleft''],
   [''backslash'', ''bracketright'', ''asciicircum'', ''underscore''],
   [''grave'', ''a'', ''b'', ''c''],
   [''d'', ''e'', ''f'', ''g''],
   [''h'', ''i'', ''j'', ''k''],
   [''l'', ''m'', ''n'', ''o''],
   [''p'', ''q'', ''r'', ''s''],
   [''t'', ''u'', ''v'', ''w''],
   [''x'', ''y'', ''z'', ''braceleft''],
   [''bar'', ''braceright'', ''asciitilde'', ''.notdef''],
   [''Euro'', ''.notdef'', ''quotesinglbase'', ''florin''],
   [''quotedblbase'', ''ellipsis'', ''dagger'', ''daggerdbl''],
   [''circumflex'', ''perthousand'', ''Scaron'', ''guilsinglleft''],
   [''OE'', ''.notdef'', ''Zcaron'', ''.notdef''],
   [''.notdef'', ''quoteleft'', ''quoteright'', ''quotedblleft''],
   [''quotedblright'', ''bullet'', ''endash'', ''emdash''],
   [''tilde'', ''trademark'', ''scaron'', ''guilsinglright''],
   [''oe'', ''.notdef'', ''zcaron'', ''ydieresis''],
   [''space'', ''exclamdown'', ''cent'', ''sterling''],
   [''currency'', ''yen'', ''brokenbar'', ''section''],
   [''dieresis'', ''copyright'', ''ordfeminine'', ''guillemotleft''],
   [''logicalnot'', ''hyphen'', ''registered'', ''macron''],
   [''degree'', ''plusminus'', ''twosuperior'', ''threesuperior''],
   [''acute'', ''mu'', ''paragraph'', ''periodcentered''],
   [''cedilla'', ''onesuperior'', ''ordmasculine'', ''guillemotright''],
   [''onequarter'', ''onehalf'', ''threequarters'', ''questiondown''],
   [''Agrave'', ''Aacute'', ''Acircumflex'', ''Atilde''],
   [''Adieresis'', ''Aring'', ''AE'', ''Ccedilla''],
   [''Egrave'', ''Eacute'', ''Ecircumflex'', ''Edieresis''],
   [''Igrave'', ''Iacute'', ''Icircumflex'', ''Idieresis''],
   [''Eth'', ''Ntilde'', ''Ograve'', ''Oacute''],
   [''Ocircumflex'', ''Otilde'', ''Odieresis'', ''multiply''],
   [''Oslash'', ''Ugrave'', ''Uacute'', ''Ucircumflex''],
   [''Udieresis'', ''Yacute'', ''Thorn'', ''germandbls''],
   [''agrave'', ''aacute'', ''acircumflex'', ''atilde''],
   [''adieresis'', ''aring'', ''ae'', ''ccedilla''],
   [''egrave'', ''eacute'', ''ecircumflex'', ''edieresis''],
   [''igrave'', ''iacute'', ''icircumflex'', ''idieresis''],
   [''eth'', ''ntilde'', ''ograve'', ''oacute''],
   [''ocircumflex'', ''otilde'', ''odieresis'', ''divide''],
   [''oslash'', ''ugrave'', ''uacute'', ''ucircumflex''],
   [''udieresis'', ''yacute'', ''thorn'', ''ydieresis'']]"

text \<open>
  \<open>String.prototype.codePointAt\<close>: undefined past the end; a high surrogate followed by
  a low surrogate is combined, any other code unit is returned as it is.
\<close>

definition codePointAt :: "jsstring \<Rightarrow> nat \<Rightarrow> nat option" where
  "codePointAt s i =
     (if i < length s then
        (let first = s ! i in
         if 0xD800 \<le> first \<and> first \<le> 0xDBFF \<and> i + 1 < length s
            \<and> 0xDC00 \<le> s ! (i + 1) \<and> s ! (i + 1) \<le> 0xDFFF
         then Some ((first - 0xD800) * 0x400 + (s ! (i + 1) - 0xDC00) + 0x10000)
         else Some first)
      else None)"

text \<open>\<open>WIN_ANSI_MAP[codePoint] || codePoint\<close>: a missing or zero entry gives the code point.\<close>

definition winAnsi :: "nat \<Rightarrow> nat" where
  "winAnsi codePoint =
     (case map_of WIN_ANSI_MAP codePoint of
        None \<Rightarrow> codePoint
      | Some v \<Rightarrow> if v = 0 then codePoint else v)"

text \<open>The loop of \<open>encodeText\<close>, with its index \<open>i\<close> and its accumulator \<open>res\<close>.\<close>

function encodeText_loop :: "jsstring \<Rightarrow> nat \<Rightarrow> jsstring list \<Rightarrow> jsstring list" where
  "encodeText_loop text i res =
     (if i < length text then
        (case codePointAt text i of
           None \<Rightarrow> res
         | Some codePoint \<Rightarrow>
             encodeText_loop text (i + getUTF16Increment codePoint)
               (res @ [toString16 (winAnsi codePoint)]))
      else res)"
  by pat_completeness auto
termination
  by (relation "measure (\<lambda>(text, i, res). length text - i)")
     (auto simp: getUTF16Increment_def)

declare encodeText_loop.simps [simp del]

definition encodeText :: "jsstring \<Rightarrow> jsstring list" where
  "encodeText text = encodeText_loop text 0 []"

text \<open>
  \<open>characterToGlyph\<close>: the name in the slot of the mapped code; a slot past the table
  (undefined) or an empty name falls back to \<open>.notdef\<close>.
\<close>

definition characterToGlyph :: "nat \<Rightarrow> string" where
  "characterToGlyph character =
     (let code = winAnsi character in
      if code < length characters \<and> characters ! code \<noteq> [] then characters ! code
      else ''.notdef'')"

function glyphsForString_loop :: "jsstring \<Rightarrow> nat \<Rightarrow> string list \<Rightarrow> string list" where
  "glyphsForString_loop string i glyphs =
     (if i < length string then
        (case codePointAt string i of
           None \<Rightarrow> glyphs
         | Some codePoint \<Rightarrow>
             glyphsForString_loop string (i + getUTF16Increment codePoint)
               (glyphs @ [characterToGlyph codePoint]))
      else glyphs)"
  by pat_completeness auto
termination
  by (relation "measure (\<lambda>(string, i, glyphs). length string - i)")
     (auto simp: getUTF16Increment_def)

declare glyphsForString_loop.simps [simp del]

definition glyphsForString :: "jsstring \<Rightarrow> string list" where
  "glyphsForString string = glyphsForString_loop string 0 []"

text \<open>
  The code points of a string as its iterator yields them: a surrogate pair is one code
  point, every other code unit stands for itself.
\<close>

fun codePoints :: "jsstring \<Rightarrow> nat list" where
  "codePoints [] = []"
| "codePoints [a] = [a]"
| "codePoints (a # b # rest) =
     (if 0xD800 \<le> a \<and> a \<le> 0xDBFF \<and> 0xDC00 \<le> b \<and> b \<le> 0xDFFF
      then ((a - 0xD800) * 0x400 + (b - 0xDC00) + 0x10000) # codePoints rest
      else a # codePoints (b # rest))"

text \<open>A well-formed JavaScript string: every code unit is a 16-bit value.\<close>

definition utf16 :: "jsstring \<Rightarrow> bool" where
  "utf16 s = list_all (\<lambda>u. u < 0x10000) s"

text \<open>\<open>encoded.slice(lastIdx, cur).join('')\<close>: the hex string of one show-text segment.\<close>

definition slice_join :: "jsstring list \<Rightarrow> nat \<Rightarrow> nat \<Rightarrow> jsstring" where
  "slice_join encoded lastIdx cur = concat (take (cur - lastIdx) (drop lastIdx encoded))"

section \<open>PDFObject: serialising values\<close>

text \<open>
  A JavaScript number is NaN, an infinity or a finite value. A finite value is the real
  number that the double stands for; negative zero is not told from zero.
\<close>

datatype jsnumber = NaN | PosInfinity | NegInfinity | Finite real

datatype error =
    UnsupportedNumber jsnumber
  | BufferLengthOdd
  | NoSuchReference nat

text \<open>
  The values \<open>PDFObject.convert\<close> distinguishes: a string literal (a PDF name), a
  \<open>String\<close> object (a PDF string), a buffer, a reference with its id and generation,
  an array, a plain object with its entries in enumeration order, a number, and any other
  value, given by its string coercion. Dates and name trees are not modelled.
\<close>

datatype pdfvalue =
    PdfName jsstring
  | PdfString jsstring
  | PdfBuffer "nat list"
  | PdfReference nat nat
  | PdfArray "pdfvalue list"
  | PdfObject "(jsstring \<times> pdfvalue) list"
  | PdfNumber jsnumber
  | PdfOther jsstring

text \<open>\<open>convert\<close> returns a number for a number and a string for everything else.\<close>

datatype converted = CNumber jsnumber | CString jsstring

text \<open>
  Double arithmetic. The result of a multiplication or a division is the exact result
  rounded to the nearest double, a tie going to the even significand: \<open>binade\<close> is the
  exponent \<open>e\<close> with \<open>2^e \<le> |x| < 2^(e+1)\<close>, found by halving or doubling (every
  finite double is reached within 1100 steps), the spacing of the doubles around \<open>x\<close>
  is \<open>2^(e - 52)\<close>, and \<open>2^(-1074)\<close> for a subnormal \<open>x\<close>. Overflow to an infinity
  is not represented: \<open>number\<close> rounds products and quotients below \<open>10^27\<close> only.
\<close>

fun halvings :: "nat \<Rightarrow> real \<Rightarrow> int" where
  "halvings 0 x = 0"
| "halvings (Suc k) x = (if x < 2 then 0 else 1 + halvings k (x / 2))"

fun doublings :: "nat \<Rightarrow> real \<Rightarrow> int" where
  "doublings 0 x = 0"
| "doublings (Suc k) x = (if 1 \<le> x then 0 else doublings k (2 * x) - 1)"

definition binade :: "real \<Rightarrow> int" where
  "binade x = (if 1 \<le> \<bar>x\<bar> then halvings 1100 \<bar>x\<bar> else doublings 1100 \<bar>x\<bar>)"

definition pow2 :: "int \<Rightarrow> real" where
  "pow2 e = (if 0 \<le> e then 2 ^ nat e else 1 / 2 ^ nat (- e))"

definition round_half_even :: "real \<Rightarrow> int" where
  "round_half_even y =
     (if y - of_int \<lfloor>y\<rfloor> < 1 / 2 then \<lfloor>y\<rfloor>
      else if 1 / 2 < y - of_int \<lfloor>y\<rfloor> then \<lfloor>y\<rfloor> + 1
      else if even \<lfloor>y\<rfloor> then \<lfloor>y\<rfloor> else \<lfloor>y\<rfloor> + 1)"

definition to_double :: "real \<Rightarrow> real" where
  "to_double x =
     (if x = 0 then 0
      else of_int (round_half_even (x / pow2 (max (binade x) (- 1022) - 52)))
           * pow2 (max (binade x) (- 1022) - 52))"

text \<open>
  \<open>Math.round\<close>: the nearest integer, a tie going up. The result is exact: the nearest
  integer of a double is a double.
\<close>

definition math_round :: "real \<Rightarrow> real" where
  "math_round x = of_int \<lfloor>x + 1 / 2\<rfloor>"

text \<open>
  \<open>PDFObject.number\<close>. Both comparisons are false for NaN, and one of them is false
  for an infinity, so only a finite value strictly between the bounds is rounded. The
  literals \<open>1e21\<close> and \<open>1e6\<close> are doubles.
\<close>

fun number :: "jsnumber \<Rightarrow> error + jsnumber" where
  "number (Finite n) =
     (if n > - (10 ^ 21) \<and> n < 10 ^ 21
      then Inr (Finite (to_double (math_round (to_double (n * 10 ^ 6)) / 10 ^ 6)))
      else Inl (UnsupportedNumber (Finite n)))"
| "number n = Inl (UnsupportedNumber n)"

text \<open>The table \<open>escapable\<close> and the character class of \<open>escapableRe\<close>.\<close>

definition escapable :: "(nat \<times> jsstring) list" where
  "escapable =
    [(0x0A, [0x5C, 0x6E]), (0x0D, [0x5C, 0x72]), (0x09, [0x5C, 0x74]), (0x08, [0x5C, 0x62]),
     (0x0C, [0x5C, 0x66]), (0x5C, [0x5C, 0x5C]), (0x28, [0x5C, 0x28]), (0x29, [0x5C, 0x29])]"

definition escapableRe :: "nat list" where
  "escapableRe = [0x0A, 0x0D, 0x09, 0x08, 0x0C, 0x28, 0x29, 0x5C]"

text \<open>
  \<open>string.replace(escapableRe, c => escapable[c])\<close>: every character of the class is
  replaced by its table entry (by \<open>undefined\<close> if it had none), the others are kept.
\<close>

definition replace_escapable :: "jsstring \<Rightarrow> jsstring" where
  "replace_escapable s =
     concat (map (\<lambda>c. if c \<in> set escapableRe
                         then (case map_of escapable c of
                                 Some e \<Rightarrow> e
                               | None \<Rightarrow> js ''undefined'')
                         else [c]) s)"

text \<open>
  \<open>swapBytes(Buffer.from(bom + string, 'utf16le')).toString('binary')\<close>: the
  byte order mark and the code units, each as its high byte followed by its low byte.
\<close>

definition utf16be_binary :: "jsstring \<Rightarrow> jsstring" where
  "utf16be_binary s = concat (map (\<lambda>u. [(u div 256) mod 256, u mod 256]) (0xFEFF # s))"

text \<open>\<open>buffer.toString('hex')\<close>: two hexadecimal digits for each byte.\<close>

definition hex_bytes :: "nat list \<Rightarrow> jsstring" where
  "hex_bytes bs = concat (map (\<lambda>b. [digit_char ((b div 16) mod 16), digit_char (b mod 16)]) bs)"

text \<open>\<open>Array.prototype.join\<close>.\<close>

fun join :: "jsstring \<Rightarrow> jsstring list \<Rightarrow> jsstring" where
  "join sep [] = []"
| "join sep [x] = x"
| "join sep (x # y # ys) = x @ sep @ join sep (y # ys)"

text \<open>
  The coercion of a converted value inside a template literal or a \<open>join\<close>. The
  rendering of a number (\<open>Number::toString\<close>) is a parameter \<open>ns\<close> of the model.
\<close>

fun toStr :: "(jsnumber \<Rightarrow> jsstring) \<Rightarrow> converted \<Rightarrow> jsstring" where
  "toStr ns (CString s) = s"
| "toStr ns (CNumber n) = ns n"

text \<open>
  \<open>PDFObject.convert\<close>. An unsupported number anywhere inside an array or an object
  raises, and the exception leaves \<open>convert\<close>: the first error wins.
\<close>

fun convert :: "(jsnumber \<Rightarrow> jsstring) \<Rightarrow> pdfvalue \<Rightarrow> error + converted"
  and convert_items :: "(jsnumber \<Rightarrow> jsstring) \<Rightarrow> pdfvalue list \<Rightarrow> error + jsstring list"
  and convert_entries ::
    "(jsnumber \<Rightarrow> jsstring) \<Rightarrow> (jsstring \<times> pdfvalue) list \<Rightarrow> error + jsstring list"
where
  "convert ns (PdfName s) = Inr (CString (js ''/'' @ s))"
| "convert ns (PdfString s) =
     (let isUnicode = (\<exists>c \<in> set s. c > 0x7f);
          string = (if isUnicode then utf16be_binary s else s)
      in Inr (CString (js ''('' @ replace_escapable string @ js '')'')))"
| "convert ns (PdfBuffer b) = Inr (CString (js ''<'' @ hex_bytes b @ js ''>''))"
| "convert ns (PdfReference i g) =
     Inr (CString (toString10 i @ js '' '' @ toString10 g @ js '' R''))"
| "convert ns (PdfArray xs) =
     (case convert_items ns xs of
        Inl e \<Rightarrow> Inl e
      | Inr items \<Rightarrow> Inr (CString (js ''['' @ join (js '' '') items @ js '']'')))"
| "convert ns (PdfObject kvs) =
     (case convert_entries ns kvs of
        Inl e \<Rightarrow> Inl e
      | Inr out \<Rightarrow> Inr (CString (join [0x0A] ([js ''<<''] @ out @ [js ''>>'']))))"
| "convert ns (PdfNumber n) =
     (case number n of Inl e \<Rightarrow> Inl e | Inr r \<Rightarrow> Inr (CNumber r))"
| "convert ns (PdfOther s) = Inr (CString s)"
| "convert_items ns [] = Inr []"
| "convert_items ns (x # xs) =
     (case convert ns x of
        Inl e \<Rightarrow> Inl e
      | Inr c \<Rightarrow>
          (case convert_items ns xs of
             Inl e \<Rightarrow> Inl e
           | Inr cs \<Rightarrow> Inr (toStr ns c # cs)))"
| "convert_entries ns [] = Inr []"
| "convert_entries ns (kv # kvs) =
     (case convert ns (snd kv) of
        Inl e \<Rightarrow> Inl e
      | Inr c \<Rightarrow>
          (case convert_entries ns kvs of
             Inl e \<Rightarrow> Inl e
           | Inr cs \<Rightarrow> Inr ((js ''/'' @ fst kv @ js '' '' @ toStr ns c) # cs)))"

text \<open>
  Reversing the escape sequences of a PDF literal string: a backslash and the character
  after it stand for one character.
\<close>

definition unescape_char :: "nat \<Rightarrow> nat" where
  "unescape_char c =
     (if c = 0x6E then 0x0A else if c = 0x72 then 0x0D else if c = 0x74 then 0x09
      else if c = 0x62 then 0x08 else if c = 0x66 then 0x0C else c)"

fun unescape :: "jsstring \<Rightarrow> jsstring" where
  "unescape (b # c # rest) =
     (if b = 0x5C then unescape_char c # unescape rest else b # unescape (c # rest))"
| "unescape cs = cs"

section \<open>PDFReference and PDFDocument: the object store and the writer\<close>

text \<open>
  A reference object with the fields the writer reads: its id and generation, its
  dictionary \<open>data\<close>, its buffered body \<open>chunks\<close> and the byte offset recorded when it
  is finalized.
\<close>

record reference =
  ref_id :: nat
  ref_gen :: nat
  ref_data :: pdfvalue
  ref_chunks :: "nat list list"
  ref_offset :: "nat option"

text \<open>
  The document as a readable stream and an object store. \<open>pushed\<close> lists what was
  pushed on the stream, \<open>None\<close> standing for \<open>push(null)\<close>, the end of the stream.
  The fields \<open>x_offset\<close>, \<open>x_offsets\<close>, \<open>x_waiting\<close>, \<open>x_ended\<close> are the
  source's \<open>_offset\<close>, \<open>_offsets\<close>, \<open>_waiting\<close>, \<open>_ended\<close>; an entry of
  \<open>x_offsets\<close> is \<open>None\<close> while it holds the placeholder \<open>null\<close>. \<open>x_root\<close>,
  \<open>x_info\<close>, \<open>x_id\<close> and \<open>x_security\<close> are the values the trailer refers to.
\<close>

record document =
  pushed :: "nat list option list"
  x_offset :: nat
  x_offsets :: "nat option list"
  x_waiting :: int
  x_ended :: bool
  x_root :: pdfvalue
  x_info :: pdfvalue
  x_id :: pdfvalue
  x_security :: "pdfvalue option"

text \<open>The state set up by the constructor before it allocates or writes anything.\<close>

definition new_document :: "pdfvalue \<Rightarrow> pdfvalue \<Rightarrow> pdfvalue \<Rightarrow> document" where
  "new_document catalog info fid =
     \<lparr>pushed = [], x_offset = 0, x_offsets = [], x_waiting = 0, x_ended = False,
      x_root = catalog, x_info = info, x_id = fid, x_security = None\<rparr>"

text \<open>What \<open>_write\<close> is given: a buffer, or a string to be followed by a line feed.\<close>

datatype wdata = WBuffer "nat list" | WString jsstring

text \<open>\<open>Buffer.from(s, 'binary')\<close>: one byte for each code unit, its low eight bits.\<close>

definition binary :: "jsstring \<Rightarrow> nat list" where
  "binary s = map (\<lambda>u. u mod 256) s"

fun x_write :: "document \<Rightarrow> wdata \<Rightarrow> document" where
  "x_write d (WBuffer b) =
     d\<lparr>pushed := pushed d @ [Some b], x_offset := x_offset d + length b\<rparr>"
| "x_write d (WString s) =
     (let b = binary (s @ [0x0A])
      in d\<lparr>pushed := pushed d @ [Some b], x_offset := x_offset d + length b\<rparr>)"

text \<open>\<open>str.slice(-n)\<close>: the last \<open>n\<close> code units, the whole string if it is shorter.\<close>

definition slice_last :: "nat \<Rightarrow> jsstring \<Rightarrow> jsstring" where
  "slice_last n s = drop (length s - n) s"

text \<open>The string coercion of an entry of \<open>_offsets\<close>.\<close>

fun offset_str :: "nat option \<Rightarrow> jsstring" where
  "offset_str None = js ''null''"
| "offset_str (Some n) = toString10 n"

definition trailer :: "document \<Rightarrow> pdfvalue" where
  "trailer d =
     PdfObject
       ([(js ''Size'', PdfNumber (Finite (real (length (x_offsets d) + 1)))),
         (js ''Root'', x_root d),
         (js ''Info'', x_info d),
         (js ''ID'', PdfArray [x_id d, x_id d])]
        @ (case x_security d of None \<Rightarrow> [] | Some dict \<Rightarrow> [(js ''Encrypt'', dict)]))"

text \<open>\<open>_finalize\<close>: the cross-reference table, the trailer and the end of the stream.\<close>

definition x_finalize :: "(jsnumber \<Rightarrow> jsstring) \<Rightarrow> document \<Rightarrow> error + document" where
  "x_finalize ns d0 =
     (let xRefOffset = x_offset d0;
          d1 = x_write d0 (WString (js ''xref''));
          d2 = x_write d1 (WString (js ''0 '' @ toString10 (length (x_offsets d1) + 1)));
          d3 = x_write d2 (WString (js ''0000000000 65535 f ''));
          d4 = fold (\<lambda>off d. x_write d
                       (WString (slice_last 10 (js ''0000000000'' @ offset_str off)
                                 @ js '' 00000 n '')))
                 (x_offsets d3) d3;
          d5 = x_write d4 (WString (js ''trailer''))
      in case convert ns (trailer d5) of
           Inl e \<Rightarrow> Inl e
         | Inr c \<Rightarrow>
             (let d6 = x_write d5 (WString (toStr ns c));
                  d7 = x_write d6 (WString (js ''startxref''));
                  d8 = x_write d7 (WString (toString10 xRefOffset));
                  d9 = x_write d8 (WString (js ''%%EOF''))
              in Inr (d9\<lparr>pushed := pushed d9 @ [None]\<rparr>)))"

text \<open>
  \<open>this._offsets[i] = v\<close> with \<open>i = ref.id - 1\<close>: an index inside the array replaces the
  entry, an index past the end extends the array with holes, and the index \<open>-1\<close> of
  an id 0 leaves the array as it is.
\<close>

definition set_offset :: "nat option list \<Rightarrow> nat \<Rightarrow> nat option \<Rightarrow> nat option list" where
  "set_offset offs rid v =
     (if rid = 0 then offs
      else if rid - 1 < length offs then offs[rid - 1 := v]
      else offs @ replicate (rid - 1 - length offs) None @ [v])"

text \<open>\<open>_refEnd\<close>.\<close>

definition x_refEnd ::
  "(jsnumber \<Rightarrow> jsstring) \<Rightarrow> document \<Rightarrow> reference \<Rightarrow> error + document" where
  "x_refEnd ns d r =
     (let d1 = d\<lparr>x_offsets := set_offset (x_offsets d) (ref_id r) (ref_offset r),
                  x_waiting := x_waiting d - 1\<rparr>
      in if x_waiting d1 = 0 \<and> x_ended d1 then
           (case x_finalize ns d1 of
              Inl e \<Rightarrow> Inl e
            | Inr d2 \<Rightarrow> Inr (d2\<lparr>x_ended := False\<rparr>))
         else Inr d1)"

text \<open>\<open>ref(data)\<close>: the next id, a placeholder offset, one more object to wait for.\<close>

definition doc_ref :: "document \<Rightarrow> pdfvalue option \<Rightarrow> reference \<times> document" where
  "doc_ref d dat =
     (\<lparr>ref_id = length (x_offsets d) + 1, ref_gen = 0,
       ref_data = (case dat of None \<Rightarrow> PdfObject [] | Some v \<Rightarrow> v),
       ref_chunks = [], ref_offset = None\<rparr>,
      d\<lparr>x_offsets := x_offsets d @ [None], x_waiting := x_waiting d + 1\<rparr>)"

text \<open>
  \<open>PDFReference.finalize\<close>: record the offset, write the header, the dictionary, the
  stream if any chunk was buffered, and \<open>endobj\<close>, then report to the document. An
  exception of \<open>convert\<close> leaves the method after the header was written.
\<close>

definition finalize ::
  "(jsnumber \<Rightarrow> jsstring) \<Rightarrow> reference \<Rightarrow> document \<Rightarrow> error + reference \<times> document" where
  "finalize ns r0 d0 =
     (let r1 = r0\<lparr>ref_offset := Some (x_offset d0)\<rparr>;
          d1 = x_write d0 (WString (toString10 (ref_id r1) @ js '' '' @ toString10 (ref_gen r1)
                                    @ js '' obj''))
      in case convert ns (ref_data r1) of
           Inl e \<Rightarrow> Inl e
         | Inr c \<Rightarrow>
             (let d2 = x_write d1 (WString (toStr ns c));
                  d3 = (if ref_chunks r1 \<noteq> [] then
                          x_write
                            (fold (\<lambda>chunk d. x_write d (WBuffer chunk)) (ref_chunks r1)
                               (x_write d2 (WString (js ''stream''))))
                            (WString (0x0A # js ''endstream''))
                        else d2);
                  r2 = (if ref_chunks r1 \<noteq> [] then r1\<lparr>ref_chunks := []\<rparr> else r1);
                  d4 = x_write d3 (WString (js ''endobj''))
              in case x_refEnd ns d4 r2 of
                   Inl e \<Rightarrow> Inl e
                 | Inr d5 \<Rightarrow> Inr (r2, d5)))"

text \<open>
  The last statement of \<open>end()\<close>. What \<open>end()\<close> does before it (flushing pages, the
  info dictionary, fonts, the catalog) allocates and ends references and appears in a
  run as events of their own.
\<close>

definition doc_end :: "(jsnumber \<Rightarrow> jsstring) \<Rightarrow> document \<Rightarrow> error + document" where
  "doc_end ns d =
     (if x_waiting d = 0 then x_finalize ns d else Inr (d\<lparr>x_ended := True\<rparr>))"

text \<open>
  A run of the writer is a sequence of events on the document and on the reference
  objects it has handed out, which are kept in a store by id: allocating a reference,
  its producer changing its dictionary and buffered chunks, its finalization (called by
  its \<open>end()\<close> or by the end of its deflate stream), a direct write, and the end of
  the document. An event on a reference that was never allocated cannot occur in the
  source; in the model it stops the run with \<open>NoSuchReference\<close>.
\<close>

datatype event =
    Ref "pdfvalue option"
  | RefUpdate nat pdfvalue "nat list list"
  | RefFinalize nat
  | Write wdata
  | End

record state =
  doc :: document
  refs :: "nat \<Rightarrow> reference option"

definition new_state :: "pdfvalue \<Rightarrow> pdfvalue \<Rightarrow> pdfvalue \<Rightarrow> state" where
  "new_state catalog info fid = \<lparr>doc = new_document catalog info fid, refs = Map.empty\<rparr>"

fun step :: "(jsnumber \<Rightarrow> jsstring) \<Rightarrow> event \<Rightarrow> state \<Rightarrow> error + state" where
  "step ns (Ref dat) s =
     (let (r, d) = doc_ref (doc s) dat
      in Inr (s\<lparr>doc := d, refs := (refs s)(ref_id r \<mapsto> r)\<rparr>))"
| "step ns (RefUpdate i dat chunks) s =
     (case refs s i of
        None \<Rightarrow> Inl (NoSuchReference i)
      | Some r \<Rightarrow> Inr (s\<lparr>refs := (refs s)(i \<mapsto> r\<lparr>ref_data := dat, ref_chunks := chunks\<rparr>)\<rparr>))"
| "step ns (RefFinalize i) s =
     (case refs s i of
        None \<Rightarrow> Inl (NoSuchReference i)
      | Some r \<Rightarrow>
          (case finalize ns r (doc s) of
             Inl e \<Rightarrow> Inl e
           | Inr (r', d') \<Rightarrow> Inr (s\<lparr>doc := d', refs := (refs s)(i \<mapsto> r')\<rparr>)))"
| "step ns (Write w) s = Inr (s\<lparr>doc := x_write (doc s) w\<rparr>)"
| "step ns End s =
     (case doc_end ns (doc s) of
        Inl e \<Rightarrow> Inl e
      | Inr d \<Rightarrow> Inr (s\<lparr>doc := d\<rparr>))"

fun run :: "(jsnumber \<Rightarrow> jsstring) \<Rightarrow> event list \<Rightarrow> state \<Rightarrow> error + state" where
  "run ns [] s = Inr s"
| "run ns (e # es) s = (case step ns e s of Inl err \<Rightarrow> Inl err | Inr s' \<Rightarrow> run ns es s')"

text \<open>
  Observations on a run: the number of references allocated, the ids finalized in
  order, and whether every reference is finalized at most once.
\<close>

fun allocated :: "event list \<Rightarrow> nat" where
  "allocated [] = 0"
| "allocated (Ref dat # es) = Suc (allocated es)"
| "allocated (e # es) = allocated es"

fun finalized :: "event list \<Rightarrow> nat list" where
  "finalized [] = []"
| "finalized (RefFinalize i # es) = i # finalized es"
| "finalized (e # es) = finalized es"

definition finalized_once :: "event list \<Rightarrow> bool" where
  "finalized_once es = distinct (finalized es)"

text \<open>The bytes of the stream, and the chunks one event added to it.\<close>

definition bytes :: "nat list option list \<Rightarrow> nat list" where
  "bytes out = concat (map (\<lambda>c. case c of None \<Rightarrow> [] | Some b \<Rightarrow> b) out)"

definition emitted :: "state \<Rightarrow> state \<Rightarrow> nat list option list" where
  "emitted s s' = drop (length (pushed (doc s))) (pushed (doc s'))"

text \<open>
  The lines of a cross-reference section for a table of offsets: the keyword, the
  subsection header, the free entry and one entry for each offset in table order.
\<close>

definition xref_entry :: "nat option \<Rightarrow> nat list" where
  "xref_entry off =
     binary (slice_last 10 (js ''0000000000'' @ offset_str off) @ js '' 00000 n '' @ [0x0A])"

definition xref_section :: "nat option list \<Rightarrow> nat list option list" where
  "xref_section offs =
     [Some (binary (js ''xref'' @ [0x0A])),
      Some (binary (js ''0 '' @ toString10 (length offs + 1) @ [0x0A])),
      Some (binary (js ''0000000000 65535 f '' @ [0x0A]))]
     @ map (\<lambda>off. Some (xref_entry off)) offs"

text \<open>Reading a decimal numeral, and the header line of an object.\<close>

definition parse_dec :: "nat list \<Rightarrow> nat" where
  "parse_dec ds = foldl (\<lambda>a c. 10 * a + (c - 48)) 0 ds"

definition obj_header :: "nat \<Rightarrow> nat list" where
  "obj_header i = binary (toString10 i @ js '' 0 obj'' @ [0x0A])"

text \<open>The bytes one call of \<open>_write\<close> pushes.\<close>

fun wbytes :: "wdata \<Rightarrow> nat list" where
  "wbytes (WBuffer b) = b"
| "wbytes (WString s) = binary (s @ [0x0A])"

text \<open>The chunks that follow the cross-reference section, for a serialised trailer.\<close>

definition trailer_section :: "nat list \<Rightarrow> nat \<Rightarrow> nat list option list" where
  "trailer_section dict xRefOffset =
     [Some (binary (js ''trailer'' @ [0x0A])), Some dict,
      Some (binary (js ''startxref'' @ [0x0A])),
      Some (binary (toString10 xRefOffset @ [0x0A])),
      Some (binary (js ''%%EOF'' @ [0x0A])), None]"

text \<open>
  The chunks \<open>PDFReference.finalize\<close> writes for an object before it reports to the
  document: the header line, the dictionary, the stream if any chunk was buffered, and
  \<open>endobj\<close>; only the header line if the dictionary cannot be converted. The chunks
  that are an event's own: the data of a direct write and the chunks of the object
  that is finalized.
\<close>

definition object_chunks :: "(jsnumber \<Rightarrow> jsstring) \<Rightarrow> reference \<Rightarrow> nat list option list" where
  "object_chunks ns r =
     Some (wbytes (WString (toString10 (ref_id r) @ js '' '' @ toString10 (ref_gen r)
                            @ js '' obj'')))
     # (case convert ns (ref_data r) of
          Inl e \<Rightarrow> []
        | Inr c \<Rightarrow>
            Some (wbytes (WString (toStr ns c)))
            # (if ref_chunks r \<noteq> [] then
                 Some (wbytes (WString (js ''stream'')))
                 # map (\<lambda>chunk. Some (wbytes (WBuffer chunk))) (ref_chunks r)
                 @ [Some (wbytes (WString (0x0A # js ''endstream'')))]
               else [])
            @ [Some (wbytes (WString (js ''endobj'')))])"

fun own_chunks :: "(jsnumber \<Rightarrow> jsstring) \<Rightarrow> event \<Rightarrow> state \<Rightarrow> nat list option list" where
  "own_chunks ns (Write w) s = [Some (wbytes w)]"
| "own_chunks ns (RefFinalize i) s =
     (case refs s i of None \<Rightarrow> [] | Some r \<Rightarrow> object_chunks ns r)"
| "own_chunks ns e s = []"

text \<open>The offset counter agrees with the number of bytes pushed so far.\<close>

definition consistent :: "document \<Rightarrow> bool" where
  "consistent d \<longleftrightarrow> x_offset d = length (bytes (pushed d))"

text \<open>
  What holds of the state after a run: the offset table has one entry for each allocated
  reference, the pending counter is the number of allocations minus the number of
  finalizations, the completion flag is only set by \<open>End\<close>, the store holds exactly
  the allocated references under their ids, a finalized reference has its recorded
  offset in its slot of the table, and at the recorded offset of a reference the stream
  has its header line.
\<close>

definition run_inv :: "event list \<Rightarrow> state \<Rightarrow> bool" where
  "run_inv evs s \<longleftrightarrow>
     length (x_offsets (doc s)) = allocated evs
   \<and> x_waiting (doc s) = int (allocated evs) - int (length (finalized evs))
   \<and> (x_ended (doc s) \<longrightarrow> End \<in> set evs)
   \<and> (\<forall>i. refs s i \<noteq> None \<longleftrightarrow> 1 \<le> i \<and> i \<le> allocated evs)
   \<and> (\<forall>i r. refs s i = Some r \<longrightarrow> ref_id r = i \<and> ref_gen r = 0)
   \<and> (\<forall>i \<in> set (finalized evs). \<exists>r off. refs s i = Some r \<and> ref_offset r = Some off
          \<and> x_offsets (doc s) ! (i - 1) = Some off)
   \<and> consistent (doc s)
   \<and> (\<forall>i r off. refs s i = Some r \<and> ref_offset r = Some off \<longrightarrow>
          take (length (obj_header i)) (drop off (bytes (pushed (doc s)))) = obj_header i)"

text \<open>
  Two sample documents. In the first, two references are allocated, the end of the
  document is requested, and the references are finalized in descending order of id. In
  the second, the first object carries a stream of five chunks of two billion bytes, so
  that the second object starts past ten billion bytes. Numbers are rendered by a fixed
  stand-in, which only the \<open>Size\<close> entry of the trailer shows.
\<close>

definition sample_ns :: "jsnumber \<Rightarrow> jsstring" where
  "sample_ns n = js ''3''"

definition sample_start :: state where
  "sample_start = new_state (PdfReference 1 0) (PdfReference 2 0) (PdfBuffer [1, 2])"

definition sample_run :: "event list" where
  "sample_run = [Ref None, Ref None, End, RefFinalize 2]"

definition sample_mid :: state where
  "sample_mid = projr (run sample_ns [Ref None, Ref None, End] sample_start)"

definition sample_before :: state where
  "sample_before = projr (run sample_ns sample_run sample_start)"

definition sample_after :: state where
  "sample_after = projr (step sample_ns (RefFinalize 1) sample_before)"

definition large_chunk :: "nat list" where
  "large_chunk = replicate 2000000000 0"

definition large_run :: "event list" where
  "large_run =
     [Ref None,
      RefUpdate 1 (PdfObject []) [large_chunk, large_chunk, large_chunk, large_chunk, large_chunk],
      RefFinalize 1, Ref None, RefFinalize 2]"

definition large_before :: state where
  "large_before = projr (run sample_ns large_run sample_start)"

definition large_after :: state where
  "large_after = projr (step sample_ns End large_before)"

section \<open>EmbeddedFont: subsetting and glyph metadata\<close>

text \<open>
  A glyph as the font program's shaping returns it: its id in the font, its advance
  width in font units and the code points it stands for, which may be missing.
\<close>

record glyph =
  glyph_id :: nat
  advanceWidth :: real
  glyph_codePoints :: "nat list option"

text \<open>
  Modelled from the spec: the subsetting object of the font program, whose code
  (\<open>createSubset\<close>, \<open>includeGlyph\<close>) is not part of the sources. The spec says that
  every distinct glyph id seen is assigned a new sequential position in a growing subset
  table the first time it is used, that position 0 is reserved for notdef and pre-seeded,
  and that \<open>includeGlyph(id)\<close> returns the compact id. The subset is the list of
  included glyph ids; the compact id of a glyph is its position in the list.
\<close>

fun index_of :: "nat \<Rightarrow> nat list \<Rightarrow> nat option" where
  "index_of g [] = None"
| "index_of g (x # xs) = (if x = g then Some 0 else map_option Suc (index_of g xs))"

definition createSubset :: "nat list" where
  "createSubset = [0]"

definition includeGlyph :: "nat \<Rightarrow> nat list \<Rightarrow> nat \<times> nat list" where
  "includeGlyph g sub =
     (case index_of g sub of
        Some k \<Rightarrow> (k, sub)
      | None \<Rightarrow> (length sub, sub @ [g]))"

text \<open>
  The fields of an embedded font that encoding touches. The arrays \<open>unicode\<close> and
  \<open>widths\<close> may have holes and are maps from positions; an entry that is missing,
  \<open>null\<close> or \<open>undefined\<close> is \<open>None\<close>.
\<close>

record embedded_font =
  subset :: "nat list"
  unicode :: "nat \<Rightarrow> nat list option"
  widths :: "nat \<Rightarrow> real option"
  scale :: real

text \<open>
  The constructor, for a font program with the given advance width of glyph 0 and the
  given number of units per em.
\<close>

definition new_embedded_font :: "real \<Rightarrow> real \<Rightarrow> embedded_font" where
  "new_embedded_font notdefAdvance unitsPerEm =
     \<lparr>subset = createSubset, unicode = [0 \<mapsto> [0]], widths = [0 \<mapsto> notdefAdvance],
      scale = 1000 / unitsPerEm\<rparr>"

text \<open>\<open>`0000${gid.toString(16)}`.slice(-4)\<close>.\<close>

definition hex4 :: "nat \<Rightarrow> jsstring" where
  "hex4 gid = slice_last 4 (js ''0000'' @ toString16 gid)"

text \<open>
  The loop of \<open>encode\<close> over the glyphs of the laid-out text, and the same loop of
  \<open>encodeGlyphs\<close>. The shaping of the text by the font program is a parameter
  \<open>layout\<close> of \<open>encode\<close>; the positions it returns are passed through and left out.
\<close>

fun encode_loop :: "glyph list \<Rightarrow> jsstring list \<Rightarrow> embedded_font \<Rightarrow> jsstring list \<times> embedded_font" where
  "encode_loop [] res font = (res, font)"
| "encode_loop (g # glyphs) res font =
     (let (gid, sub) = includeGlyph (glyph_id g) (subset font);
          res' = res @ [hex4 gid];
          w = (if widths font gid = None
               then (widths font)(gid \<mapsto> advanceWidth g * scale font)
               else widths font);
          u = (if unicode font gid = None
               then (unicode font)(gid := glyph_codePoints g)
               else unicode font)
      in encode_loop glyphs res' (font\<lparr>subset := sub, widths := w, unicode := u\<rparr>))"

definition encode :: "(jsstring \<Rightarrow> glyph list) \<Rightarrow> jsstring \<Rightarrow> embedded_font \<Rightarrow> jsstring list \<times> embedded_font" where
  "encode layout t font = encode_loop (layout t) [] font"

fun encodeGlyphs_loop :: "glyph list \<Rightarrow> jsstring list \<Rightarrow> embedded_font \<Rightarrow> jsstring list \<times> embedded_font" where
  "encodeGlyphs_loop [] res font = (res, font)"
| "encodeGlyphs_loop (g # glyphs) res font =
     (let (gid, sub) = includeGlyph (glyph_id g) (subset font);
          res' = res @ [hex4 gid];
          w = (if widths font gid = None
               then (widths font)(gid \<mapsto> advanceWidth g * scale font)
               else widths font);
          u = (if unicode font gid = None
               then (unicode font)(gid := glyph_codePoints g)
               else unicode font)
      in encodeGlyphs_loop glyphs res' (font\<lparr>subset := sub, widths := w, unicode := u\<rparr>))"

definition encodeGlyphs :: "glyph list \<Rightarrow> embedded_font \<Rightarrow> jsstring list \<times> embedded_font" where
  "encodeGlyphs glyphs font = encodeGlyphs_loop glyphs [] font"

text \<open>A sequence of calls on one font instance.\<close>

datatype font_call = Encode jsstring | EncodeGlyphs "glyph list"

fun font_calls :: "(jsstring \<Rightarrow> glyph list) \<Rightarrow> font_call list \<Rightarrow> embedded_font \<Rightarrow> embedded_font" where
  "font_calls layout [] font = font"
| "font_calls layout (Encode t # cs) font = font_calls layout cs (snd (encode layout t font))"
| "font_calls layout (EncodeGlyphs gs # cs) font = font_calls layout cs (snd (encodeGlyphs gs font))"

text \<open>The compact id a subset gives a glyph id it contains.\<close>

definition compact_id :: "nat list \<Rightarrow> nat \<Rightarrow> nat" where
  "compact_id sub g = (case index_of g sub of Some k \<Rightarrow> k | None \<Rightarrow> length sub)"

text \<open>A sample shaping that maps every code unit to the glyph of the same id.\<close>

definition sample_layout :: "jsstring \<Rightarrow> glyph list" where
  "sample_layout t = map (\<lambda>u. \<lparr>glyph_id = u, advanceWidth = 500, glyph_codePoints = Some [u]\<rparr>) t"

section \<open>TextMixin: the spacing of a rendered line\<close>

text \<open>
  The white space of the regular expression class \<open>\s\<close> and of \<open>trim\<close>.
\<close>

definition is_space :: "nat \<Rightarrow> bool" where
  "is_space u \<longleftrightarrow>
     u \<in> {0x09, 0x0A, 0x0B, 0x0C, 0x0D, 0x20, 0xA0, 0x1680, 0x2028, 0x2029, 0x202F, 0x205F,
          0x3000, 0xFEFF}
     \<or> (0x2000 \<le> u \<and> u \<le> 0x200A)"

definition trim :: "jsstring \<Rightarrow> jsstring" where
  "trim s = rev (dropWhile is_space (rev (dropWhile is_space s)))"

text \<open>
  \<open>s.split(/\s+/)\<close>: the pieces between the runs of white space, the current piece
  being collected in \<open>cur\<close>; the empty string gives one empty piece.
\<close>

fun split_ws :: "bool \<Rightarrow> jsstring \<Rightarrow> jsstring \<Rightarrow> jsstring list" where
  "split_ws inSep [] cur = [cur]"
| "split_ws inSep (c # cs) cur =
     (if is_space c then (if inSep then split_ws True cs cur else cur # split_ws True cs [])
      else split_ws False cs (cur @ [c]))"

definition split_spaces :: "jsstring \<Rightarrow> jsstring list" where
  "split_spaces s = split_ws False s []"

datatype alignment = AlignLeft | AlignCenter | AlignRight | AlignJustify

text \<open>
  The text options that decide the spacing of a line. A missing option is \<open>None\<close>;
  \<open>opt_lineWidth\<close> is the value the line wrapper stores before each line event.
\<close>

record text_options =
  opt_align :: "alignment option"
  opt_width :: "real option"
  opt_lineWidth :: real
  opt_wordSpacing :: "real option"
  opt_characterSpacing :: "real option"
  opt_horizontalScaling :: "real option"

text \<open>\<open>x || d\<close> on an optional number: a missing value and zero give the default.\<close>

definition or_default :: "real option \<Rightarrow> real \<Rightarrow> real" where
  "or_default x d = (case x of None \<Rightarrow> d | Some v \<Rightarrow> if v = 0 then d else v)"

definition no_options :: text_options where
  "no_options =
     \<lparr>opt_align = None, opt_width = None, opt_lineWidth = 0, opt_wordSpacing = None,
      opt_characterSpacing = None, opt_horizontalScaling = None\<rparr>"

text \<open>
  \<open>widthOfString\<close> of the document. The width the current font gives a string at the
  current size is the parameter \<open>fw\<close>.
\<close>

definition widthOfString :: "(jsstring \<Rightarrow> real) \<Rightarrow> jsstring \<Rightarrow> text_options \<Rightarrow> real" where
  "widthOfString fw string options =
     (let horizontalScaling = or_default (opt_horizontalScaling options) 100
      in (fw string + or_default (opt_characterSpacing options) 0
                        * (real (length string) - 1))
         * horizontalScaling / 100)"

text \<open>
  The word spacing \<open>_fragment\<close> applies to a line: nothing is drawn for a text that is
  empty once its line feeds are removed; a justified line in a text with a width gets
  the computed spacing; any other line keeps the word spacing option.
\<close>

definition fragment_wordSpacing ::
  "(jsstring \<Rightarrow> real) \<Rightarrow> jsstring \<Rightarrow> text_options \<Rightarrow> real option" where
  "fragment_wordSpacing fw text0 options =
     (let t = filter (\<lambda>c. c \<noteq> 0x0A) text0
      in if length t = 0 then None
         else
           (let align = (case opt_align options of None \<Rightarrow> AlignLeft | Some a \<Rightarrow> a);
                wordSpacing = or_default (opt_wordSpacing options) 0;
                characterSpacing = or_default (opt_characterSpacing options) 0
            in if or_default (opt_width options) 0 \<noteq> 0 \<and> align = AlignJustify then
                 (let words = split_spaces (trim t);
                      textWidth = widthOfString fw (filter (\<lambda>c. \<not> is_space c) t) options;
                      spaceWidth = widthOfString fw [0x20] no_options + characterSpacing
                  in Some (max 0 ((opt_lineWidth options - textWidth)
                                   / max 1 (real (length words) - 1) - spaceWidth)))
               else Some wordSpacing))"

text \<open>
  The \<open>lastLine\<close> handler of the line wrapper, and the emission of one line: for the
  last line of a paragraph the handler runs first; \<open>emitLine\<close> stores the line width of
  the wrapper in the options and emits the line event, whose first listener draws the
  fragment; the listener the handler registered then restores the alignment.
\<close>

definition lastLine_handler :: "text_options \<Rightarrow> text_options" where
  "lastLine_handler options =
     (if opt_align options = Some AlignJustify then options\<lparr>opt_align := Some AlignLeft\<rparr>
      else options)"

definition emit_line ::
  "(jsstring \<Rightarrow> real) \<Rightarrow> bool \<Rightarrow> real \<Rightarrow> jsstring \<Rightarrow> text_options \<Rightarrow> real option \<times> text_options" where
  "emit_line fw isLast wrapperLineWidth buffer options =
     (let o1 = (if isLast then lastLine_handler options else options);
          o2 = o1\<lparr>opt_lineWidth := wrapperLineWidth\<rparr>;
          spacing = fragment_wordSpacing fw buffer o2;
          o3 = (if isLast then o2\<lparr>opt_align := opt_align options\<rparr> else o2)
      in (spacing, o3))"

text \<open>
  A font in which every character is 6 units wide (Courier at size 10), and the options
  of a justified text of width 32.
\<close>

definition courier10 :: "jsstring \<Rightarrow> real" where
  "courier10 s = 6 * real (length s)"

definition justified32 :: text_options where
  "justified32 =
     \<lparr>opt_align = Some AlignJustify, opt_width = Some 32, opt_lineWidth = 0,
      opt_wordSpacing = None, opt_characterSpacing = None, opt_horizontalScaling = None\<rparr>"

text \<open>
  The same options with a horizontal scaling of 50, a font that gives a tab no width,
  as the standard fonts do for a character without a glyph, and a font with kerning that
  moves a space and a neighbouring character 3 units closer.
\<close>

definition justified32_half :: text_options where
  "justified32_half = justified32\<lparr>opt_horizontalScaling := Some 50\<rparr>"

definition tabless10 :: "jsstring \<Rightarrow> real" where
  "tabless10 s = 6 * real (length (filter (\<lambda>c. c \<noteq> 0x09) s))"

definition kerned10 :: "jsstring \<Rightarrow> real" where
  "kerned10 s =
     6 * real (length s)
     - 3 * real (length (filter (\<lambda>p. fst p = 0x20 \<or> snd p = 0x20) (zip s (tl s))))"

section \<open>LineWrapper: splitting a word that is wider than the line\<close>

text \<open>
  \<open>word.slice(0, l)\<close> and \<open>word.slice(l)\<close> for an integer \<open>l\<close>: a negative index
  counts from the end of the string, and an index outside the string is clamped.
\<close>

definition slice_index :: "jsstring \<Rightarrow> int \<Rightarrow> nat" where
  "slice_index word l = nat (if l < 0 then int (length word) + l else l)"

definition slice_to :: "jsstring \<Rightarrow> int \<Rightarrow> jsstring" where
  "slice_to word l = take (slice_index word l) word"

definition slice_from :: "jsstring \<Rightarrow> int \<Rightarrow> jsstring" where
  "slice_from word l = drop (slice_index word l) word"

text \<open>
  The state of a line wrapper during one call of \<open>wrap\<close>: the fields \<open>eachWord\<close>
  reads, and the line being collected by the callback of \<open>wrap\<close> with the lines it
  has emitted. An emitted line is recorded with its text, its width, its word count and
  whether the \<open>lastLine\<close> event preceded it.
\<close>

record wrapper =
  spaceLeft :: real
  lineWidth :: real
  continuedX :: real
  wordSpacing :: real
  buffer :: jsstring
  textWidth :: real
  wc :: int
  lines :: "(jsstring \<times> real \<times> int \<times> bool) list"

text \<open>
  One call of the callback \<open>fn(word, w, bk, last)\<close>, as \<open>eachWord\<close> makes it while
  splitting a word: the piece, the width passed with it, the required flag of the break
  passed, the required flag of the previous break (\<open>None\<close> when there is none), and
  the space left on the line and the line width at the moment of the call.
\<close>

record call =
  piece :: jsstring
  width :: real
  required :: bool
  previous :: "bool option"
  space :: real
  line :: real

datatype split_error = NonFiniteLength

text \<open>
  The inner loop that shrinks or grows the guessed length \<open>l\<close> of the piece, with the
  width \<open>w\<close> of the current prefix and the two flags of the source. The width of a
  word (\<open>wordWidth\<close>) is the parameter \<open>ww\<close>.
\<close>

function fit_loop ::
  "(jsstring \<Rightarrow> real) \<Rightarrow> real \<Rightarrow> jsstring \<Rightarrow> int \<Rightarrow> real \<Rightarrow> bool \<Rightarrow> bool \<Rightarrow> int \<times> real" where
  "fit_loop ww sl word l w mustShrink mightGrow =
     (if mustShrink \<or> mightGrow then
        (if mustShrink then
           (let l' = l - 1; w' = ww (slice_to word l')
            in fit_loop ww sl word l' w' (w' > sl \<and> l' > 0) mightGrow)
         else
           (let l' = l + 1; w' = ww (slice_to word l')
            in fit_loop ww sl word l' w' (w' > sl \<and> l' > 0)
                 (w' \<le> sl \<and> l' < int (length word))))
      else (l, w))"
  by pat_completeness auto
termination
  by (relation "measure (\<lambda>(ww, sl, word, l, w, mustShrink, mightGrow).
        if mightGrow then
          (if mustShrink then 3 * nat l + 3 + 2 * nat (int (length word) - l + 1)
           else nat (l + 1) + 2 + 2 * nat (int (length word) - l))
        else (if mustShrink then nat l + 1 else 0))")
     (auto simp: Let_def)

declare fit_loop.simps [simp del]

text \<open>
  The length of the next piece before the edge case is looked at, and the width passed
  with it. If the rest of the word does not fit, the first guess is
  \<open>Math.ceil(spaceLeft / (w / word.length))\<close>, which is not a finite number when
  \<open>w\<close> is zero; the model stops there with an error. Otherwise the piece is the whole
  rest.
\<close>

definition fitted_length ::
  "(jsstring \<Rightarrow> real) \<Rightarrow> real \<Rightarrow> jsstring \<Rightarrow> real \<Rightarrow> split_error + int \<times> real" where
  "fitted_length ww sl word w =
     (if w > sl then
        (if w / real (length word) = 0 then Inl NonFiniteLength
         else
           (let l = \<lceil>sl / (w / real (length word))\<rceil>;
                w0 = ww (slice_to word l);
                mightGrow = (w0 \<le> sl \<and> l < int (length word));
                mustShrink = (w0 > sl \<and> l > 0)
            in Inr (fit_loop ww sl word l w0 mustShrink mightGrow)))
      else
        (let l = int (length word);
             mustShrink = (w > sl \<and> l > 0)
         in Inr (fit_loop ww sl word l w mustShrink False)))"

text \<open>
  The edge case where a single character cannot fit into a line: a length of 0 on a
  line that is still empty (\<open>spaceLeft === lineWidth\<close>) is replaced by 1.
\<close>

definition piece_length ::
  "(jsstring \<Rightarrow> real) \<Rightarrow> 'a wrapper_scheme \<Rightarrow> jsstring \<Rightarrow> real \<Rightarrow> split_error + int \<times> real" where
  "piece_length ww st word w =
     (case fitted_length ww (spaceLeft st) word w of
        Inl e \<Rightarrow> Inl e
      | Inr (l, w1) \<Rightarrow> Inr (if l = 0 \<and> spaceLeft st = lineWidth st then 1 else l, w1))"

text \<open>
  The loop \<open>while (word.length)\<close> of \<open>eachWord\<close> for a word wider than the line,
  with the callback \<open>fn\<close> as a parameter. The callback returns whether wrapping goes
  on (anything but \<open>false\<close>) and the new state. The loop need not end for every
  callback, so it is given fuel, one unit for each piece; \<open>None\<close> means the fuel ran
  out. The result lists the calls made, and tells whether the last call asked to go on.
\<close>

fun force_split ::
  "nat \<Rightarrow> (jsstring \<Rightarrow> real \<Rightarrow> bool \<Rightarrow> bool option \<Rightarrow> wrapper \<Rightarrow> bool \<times> wrapper)
     \<Rightarrow> (jsstring \<Rightarrow> real) \<Rightarrow> bool \<Rightarrow> jsstring \<Rightarrow> real \<Rightarrow> bool option \<Rightarrow> wrapper
     \<Rightarrow> (split_error + call list \<times> bool \<times> wrapper) option" where
  "force_split fuel fn ww bk_required word w lbk st =
     (if word = [] then Some (Inr ([], True, st))
      else
        (case fuel of
           0 \<Rightarrow> None
         | Suc fuel' \<Rightarrow>
             (case piece_length ww st word w of
                Inl e \<Rightarrow> Some (Inl e)
              | Inr (l, w1) \<Rightarrow>
                  (let fbk_required = (bk_required \<or> l < int (length word));
                       c = \<lparr>piece = slice_to word l, width = w1, required = fbk_required,
                            previous = lbk, space = spaceLeft st, line = lineWidth st\<rparr>;
                       (shouldContinue, st') = fn (slice_to word l) w1 fbk_required lbk st;
                       word' = slice_from word l;
                       w' = ww word'
                   in if \<not> shouldContinue then Some (Inr ([c], False, st'))
                      else
                        (case force_split fuel' fn ww bk_required word' w' (Some False) st' of
                           None \<Rightarrow> None
                         | Some (Inl e) \<Rightarrow> Some (Inl e)
                         | Some (Inr (cs, cont, st'')) \<Rightarrow> Some (Inr (c # cs, cont, st'')))))))"

text \<open>
  The callback of \<open>wrap\<close>, for a text without indent, continuation, ellipsis or height
  limit: then the \<open>firstLine\<close> handler leaves the line width as it is, a new section
  always starts a new page, and the callback never returns \<open>false\<close>.
\<close>

definition SOFT_HYPHEN :: nat where
  "SOFT_HYPHEN = 0xAD"

definition HYPHEN :: nat where
  "HYPHEN = 0x2D"

definition canFit :: "(jsstring \<Rightarrow> real) \<Rightarrow> wrapper \<Rightarrow> jsstring \<Rightarrow> real \<Rightarrow> bool" where
  "canFit ww st word w =
     (if word = [] \<or> last word \<noteq> SOFT_HYPHEN then w \<le> spaceLeft st
      else w + ww [HYPHEN] \<le> spaceLeft st)"

definition emitLine :: "bool \<Rightarrow> wrapper \<Rightarrow> wrapper" where
  "emitLine isLast st =
     st\<lparr>lines := lines st
            @ [(buffer st, textWidth st + wordSpacing st * (real_of_int (wc st) - 1), wc st, isLast)]\<rparr>"

definition wrap_callback ::
  "(jsstring \<Rightarrow> real) \<Rightarrow> jsstring \<Rightarrow> real \<Rightarrow> bool \<Rightarrow> bool option \<Rightarrow> wrapper \<Rightarrow> bool \<times> wrapper" where
  "wrap_callback ww word w bk_required lst st0 =
     (let st1 = (if lst = None \<or> lst = Some True then st0\<lparr>spaceLeft := lineWidth st0\<rparr> else st0);
          st2 = (if canFit ww st1 word w
                 then st1\<lparr>buffer := buffer st1 @ word, textWidth := textWidth st1 + w,
                          wc := wc st1 + 1\<rparr>
                 else st1)
      in if bk_required \<or> \<not> canFit ww st2 word w then
           (let st3 = (if bk_required \<and> w > spaceLeft st2
                       then (emitLine False st2)\<lparr>buffer := word, textWidth := w, wc := 1\<rparr>
                       else st2);
                st4 = (if buffer st3 \<noteq> [] \<and> last (buffer st3) = SOFT_HYPHEN
                       then st3\<lparr>buffer := butlast (buffer st3) @ [HYPHEN],
                                spaceLeft := spaceLeft st3 - ww [HYPHEN]\<rparr>
                       else st3);
                st5 = emitLine bk_required st4
            in if bk_required
               then (True, st5\<lparr>spaceLeft := lineWidth st5, buffer := [], textWidth := 0, wc := 0\<rparr>)
               else (True, st5\<lparr>spaceLeft := lineWidth st5 - w, buffer := word, textWidth := w,
                                 wc := 1\<rparr>))
         else (True, st2\<lparr>spaceLeft := spaceLeft st2 - w\<rparr>))"

text \<open>
  The end of \<open>wrap\<close>: the words still in the buffer are emitted as a line after a
  \<open>lastLine\<close> event.
\<close>

definition wrap_end :: "wrapper \<Rightarrow> wrapper" where
  "wrap_end st = (if wc st > 0 then emitLine True st else st)"



text \<open>
  A wrapper on an empty line of the given width, and a width function that gives every
  character the width 1. The line \<open>partial_line\<close> has the width 9.5 and holds one word
  of nine characters, put there by the callback of \<open>wrap\<close>.
\<close>

definition empty_line :: "real \<Rightarrow> wrapper" where
  "empty_line lw =
     \<lparr>spaceLeft = lw, lineWidth = lw, continuedX = 0, wordSpacing = 0, buffer = [],
      textWidth = 0, wc = 0, lines = []\<rparr>"

definition unit_width :: "jsstring \<Rightarrow> real" where
  "unit_width s = real (length s)"



text \<open>
  The lines emitted by the end of a finished split, and no lines otherwise. The line
  \<open>started_line\<close> has the width 10.5 and holds the word \<open>ab\<close> with its space; the
  options \<open>justified_narrow\<close> are those of a justified text of that width.
\<close>

definition split_lines ::
  "(split_error + call list \<times> bool \<times> wrapper) option \<Rightarrow> (jsstring \<times> real \<times> int \<times> bool) list" where
  "split_lines r = (case r of Some (Inr (cs, cont, st)) \<Rightarrow> lines st | _ \<Rightarrow> [])"

definition started_line :: wrapper where
  "started_line = snd (wrap_callback unit_width (js ''ab '') 3 False None (empty_line (21 / 2)))"

definition justified_narrow :: text_options where
  "justified_narrow =
     \<lparr>opt_align = Some AlignJustify, opt_width = Some (21 / 2), opt_lineWidth = 0,
      opt_wordSpacing = None, opt_characterSpacing = None, opt_horizontalScaling = None\<rparr>"

section \<open>Properties of the standard font encoding\<close>

lemma codePoints_drop:
  assumes "utf16 s" "i < length s"
  shows "\<exists>cp. codePointAt s i = Some cp \<and>
     codePoints (drop i s) = cp # codePoints (drop (i + getUTF16Increment cp) s)"
proof (cases "Suc i < length s")
  case True
  then have d2: "drop (Suc i) s = s ! Suc i # drop (Suc (Suc i)) s"
    by (simp add: Cons_nth_drop_Suc)
  from True have d: "drop i s = s ! i # s ! Suc i # drop (Suc (Suc i)) s"
    by (simp add: Cons_nth_drop_Suc Suc_lessD)
  have u: "s ! i < 0x10000"
    using assms by (simp add: utf16_def list_all_length)
  have "codePoints (drop i s) =
      (if 0xD800 \<le> s ! i \<and> s ! i \<le> 0xDBFF \<and> 0xDC00 \<le> s ! Suc i \<and> s ! Suc i \<le> 0xDFFF
       then ((s ! i - 0xD800) * 0x400 + (s ! Suc i - 0xDC00) + 0x10000)
              # codePoints (drop (Suc (Suc i)) s)
       else s ! i # codePoints (drop (Suc i) s))"
    by (subst d) (simp add: d2)
  then show ?thesis
    using True u assms(2)
    by (auto simp: codePointAt_def Let_def getUTF16Increment_def)
next
  case False
  with assms have d: "drop i s = [s ! i]" "drop (Suc i) s = []"
    by (simp_all add: Cons_nth_drop_Suc [symmetric])
  have u: "s ! i < 0x10000"
    using assms by (simp add: utf16_def list_all_length)
  show ?thesis
    using False assms u by (simp add: codePointAt_def Let_def getUTF16Increment_def d)
qed

lemma encodeText_loop_eq:
  "utf16 t \<Longrightarrow> i \<le> length t \<Longrightarrow>
   encodeText_loop t i res =
     res @ map (\<lambda>cp. toString16 (winAnsi cp)) (codePoints (drop i t))"
proof (induction t i res rule: encodeText_loop.induct)
  case (1 t i res)
  show ?case
  proof (cases "i < length t")
    case True
    note u = "1.prems"(1)
    from codePoints_drop [OF u True] obtain cp where
      cp: "codePointAt t i = Some cp"
        "codePoints (drop i t) = cp # codePoints (drop (i + getUTF16Increment cp) t)"
      by blast
    show ?thesis
    proof (cases "i + getUTF16Increment cp \<le> length t")
      case le: True
      from "1.IH" [OF True cp(1) u le] show ?thesis
        using True cp by (subst encodeText_loop.simps) simp
    next
      case False
      then have "drop (i + getUTF16Increment cp) t = []" by simp
      moreover have "encodeText_loop t (i + getUTF16Increment cp) (res @ [toString16 (winAnsi cp)])
          = res @ [toString16 (winAnsi cp)]"
        using False by (subst encodeText_loop.simps) simp
      ultimately show ?thesis
        using True cp by (subst encodeText_loop.simps) simp
    qed
  next
    case False
    with "1.prems" show ?thesis
      by (subst encodeText_loop.simps) simp
  qed
qed


lemma glyphsForString_loop_eq:
  "utf16 t \<Longrightarrow> i \<le> length t \<Longrightarrow>
   glyphsForString_loop t i res = res @ map characterToGlyph (codePoints (drop i t))"
proof (induction t i res rule: glyphsForString_loop.induct)
  case (1 t i res)
  show ?case
  proof (cases "i < length t")
    case True
    note u = "1.prems"(1)
    from codePoints_drop [OF u True] obtain cp where
      cp: "codePointAt t i = Some cp"
        "codePoints (drop i t) = cp # codePoints (drop (i + getUTF16Increment cp) t)"
      by blast
    show ?thesis
    proof (cases "i + getUTF16Increment cp \<le> length t")
      case le: True
      from "1.IH" [OF True cp(1) u le] show ?thesis
        using True cp by (subst glyphsForString_loop.simps) simp
    next
      case False
      then have "drop (i + getUTF16Increment cp) t = []" by simp
      moreover have "glyphsForString_loop t (i + getUTF16Increment cp) (res @ [characterToGlyph cp])
          = res @ [characterToGlyph cp]"
        using False by (subst glyphsForString_loop.simps) simp
      ultimately show ?thesis
        using True cp by (subst glyphsForString_loop.simps) simp
    qed
  next
    case False
    with "1.prems" show ?thesis
      by (subst glyphsForString_loop.simps) simp
  qed
qed

lemma WIN_ANSI_MAP_range:
  "map_of WIN_ANSI_MAP cp = Some v \<Longrightarrow> 0x80 \<le> v \<and> v \<le> 0x9F"
  by (drule map_of_SomeD) (auto simp: WIN_ANSI_MAP_def)

lemma winAnsi_mapped: "map_of WIN_ANSI_MAP cp = Some v \<Longrightarrow> winAnsi cp = v"
  using WIN_ANSI_MAP_range [of cp v] by (simp add: winAnsi_def)

lemma winAnsi_unmapped: "map_of WIN_ANSI_MAP cp = None \<Longrightarrow> winAnsi cp = cp"
  by (simp add: winAnsi_def)

lemma length_characters: "length characters = 256"
  by (simp add: characters_def)

lemma toStringRadix_length_lower:
  "2 \<le> b \<Longrightarrow> b ^ k \<le> n \<Longrightarrow> k < length (toStringRadix b n)"
proof (induction b n arbitrary: k rule: toStringRadix.induct)
  case (1 b n)
  show ?case
  proof (cases "n < b")
    case True
    with "1.prems" have "b ^ k < b ^ 1" by simp
    moreover have "1 < b" using "1.prems"(1) by simp
    ultimately have "k < 1" by (rule power_less_imp_less_exp [rotated])
    then have "k = 0" by simp
    then show ?thesis by (subst toStringRadix.simps) simp
  next
    case False
    show ?thesis
    proof (cases k)
      case 0
      then show ?thesis by (subst toStringRadix.simps) simp
    next
      case (Suc k')
      with "1.prems" have "b * b ^ k' \<le> n" by simp
      then have "b ^ k' \<le> n div b"
        using "1.prems"(1) by (simp add: less_eq_div_iff_mult_less_eq mult.commute)
      from "1.IH" [OF _ "1.prems"(1) this] False "1.prems"(1)
      have "k' < length (toStringRadix b (n div b))" by simp
      with False "1.prems"(1) Suc show ?thesis
        by (subst toStringRadix.simps) simp
    qed
  qed
qed

lemma toStringRadix_length_upper:
  "2 \<le> b \<Longrightarrow> n < b ^ k \<Longrightarrow> 0 < k \<Longrightarrow> length (toStringRadix b n) \<le> k"
proof (induction b n arbitrary: k rule: toStringRadix.induct)
  case (1 b n)
  show ?case
  proof (cases "n < b")
    case True
    with "1.prems" show ?thesis by (subst toStringRadix.simps) simp
  next
    case False
    obtain k' where k: "k = Suc k'" using "1.prems"(3) by (cases k) auto
    have "0 < k'"
      using False "1.prems"(2) k by (cases k') auto
    moreover have "n div b < b ^ k'"
      using "1.prems" k
      by (simp add: less_mult_imp_div_less mult.commute)
    ultimately have "length (toStringRadix b (n div b)) \<le> k'"
      using "1.IH" [of k'] False "1.prems"(1) by simp
    with False "1.prems"(1) k show ?thesis
      by (subst toStringRadix.simps) simp
  qed
qed

lemmas encode_eval = encodeText_def js_def encodeText_loop.simps codePointAt_def
  getUTF16Increment_def winAnsi_def WIN_ANSI_MAP_def toStringRadix.simps digit_char_def

text \<open>
  Claim C7. The standard font encoding works code point by code point: \<open>encodeText\<close>
  renders, for each code point of the text in order, the hexadecimal form of its WinAnsi
  code, and \<open>glyphsForString\<close> looks each code point up. A code point in
  \<open>WIN_ANSI_MAP\<close> is replaced by its entry, which lies between 0x80 and 0x9F; any
  other code point is its own code. A code whose slot holds no glyph name gives
  \<open>.notdef\<close>. The text \<open>Hello\<close> is encoded as 48 65 6c 6c 6f.
\<close>

theorem standard_font_encoding:
  "utf16 t \<longrightarrow>
     encodeText t = map (\<lambda>cp. toString16 (winAnsi cp)) (codePoints t)
   \<and> glyphsForString t = map characterToGlyph (codePoints t)
   \<and> (\<forall>cp v. map_of WIN_ANSI_MAP cp = Some v \<longrightarrow> winAnsi cp = v \<and> 0x80 \<le> v \<and> v \<le> 0x9F)
   \<and> (\<forall>cp. map_of WIN_ANSI_MAP cp = None \<longrightarrow> winAnsi cp = cp)
   \<and> (\<forall>cp. length characters \<le> winAnsi cp \<or> characters ! winAnsi cp = []
          \<longrightarrow> characterToGlyph cp = ''.notdef'')
   \<and> encodeText (js ''Hello'') = [js ''48'', js ''65'', js ''6c'', js ''6c'', js ''6f'']"
proof (intro impI conjI allI)
  assume u: "utf16 t"
  show "encodeText t = map (\<lambda>cp. toString16 (winAnsi cp)) (codePoints t)"
    using encodeText_loop_eq [OF u, of 0 "[]"] by (simp add: encodeText_def)
  show "glyphsForString t = map characterToGlyph (codePoints t)"
    using glyphsForString_loop_eq [OF u, of 0 "[]"] by (simp add: glyphsForString_def)
next
  fix cp v assume "map_of WIN_ANSI_MAP cp = Some v"
  then show "winAnsi cp = v" "0x80 \<le> v" "v \<le> 0x9F"
    using WIN_ANSI_MAP_range [of cp v] winAnsi_mapped [of cp v] by simp_all
next
  fix cp assume "map_of WIN_ANSI_MAP cp = None"
  then show "winAnsi cp = cp" by (rule winAnsi_unmapped)
next
  fix cp assume "length characters \<le> winAnsi cp \<or> characters ! winAnsi cp = []"
  then show "characterToGlyph cp = ''.notdef''"
    by (auto simp: characterToGlyph_def Let_def)
next
  show "encodeText (js ''Hello'') = [js ''48'', js ''65'', js ''6c'', js ''6c'', js ''6f'']"
    by (simp add: encode_eval)
qed


theorem standard_font_encoding_witness:
  "utf16 [0x20AC, 0x41, 0x2603]
   \<and> encodeText [0x20AC, 0x41, 0x2603] = [js ''80'', js ''41'', js ''2603'']
   \<and> glyphsForString [0x20AC, 0x41, 0x2603] = [''Euro'', ''A'', ''.notdef'']
   \<and> winAnsi 0x20AC = 0x80 \<and> winAnsi 0x41 = 0x41
   \<and> characterToGlyph 0x2603 = ''.notdef''"
proof -
  have u: "utf16 [0x20AC, 0x41, 0x2603]" by (simp add: utf16_def)
  have m: "map_of WIN_ANSI_MAP 0x20AC = Some 0x80" "map_of WIN_ANSI_MAP 0x41 = None"
    "map_of WIN_ANSI_MAP 0x2603 = None"
    by (simp_all add: WIN_ANSI_MAP_def)
  have w: "winAnsi 0x2603 = 0x2603" by (simp add: winAnsi_def m)
  have l: "length characters \<le> winAnsi 0x2603" by (simp add: w length_characters)
  have c: "codePoints [0x20AC, 0x41, 0x2603] = [0x20AC, 0x41, 0x2603]" by simp
  have g: "characterToGlyph 0x20AC = ''Euro''" "characterToGlyph 0x41 = ''A''"
    by (simp_all add: characterToGlyph_def winAnsi_def m characters_def)
  have h: "toString16 0x80 = js ''80''" "toString16 0x41 = js ''41''"
     "toString16 0x2603 = js ''2603''"
    by (simp_all add: toStringRadix.simps digit_char_def js_def)
  from standard_font_encoding [of "[0x20AC, 0x41, 0x2603]"] u m l c g h w
  show ?thesis by simp
qed


text \<open>
  Claim C10. The tokens of the standard font encoding are bare hexadecimal numerals
  without zero padding: a code below 0x10 gives a one-digit token (tab gives \<open>9\<close>),
  and a code point above 0xFF that is not in \<open>WIN_ANSI_MAP\<close> passes through and
  gives a token of more than two digits. The hex string that a show-text segment joins
  from the tokens is therefore not a sequence of two-digit codes: for the three code
  points 0x41, 0x09, 0x100 it is \<open>419100\<close>.
\<close>

theorem standard_font_tokens_unpadded:
  "utf16 t \<longrightarrow>
     encodeText t = map (\<lambda>cp. toString16 (winAnsi cp)) (codePoints t)
   \<and> (\<forall>cp. winAnsi cp < 0x10 \<longrightarrow> length (toString16 (winAnsi cp)) = 1)
   \<and> (\<forall>cp. 0xFF < cp \<and> map_of WIN_ANSI_MAP cp = None
          \<longrightarrow> winAnsi cp = cp \<and> 2 < length (toString16 (winAnsi cp)))
   \<and> encodeText [0x09] = [js ''9'']
   \<and> encodeText [0x100] = [js ''100'']
   \<and> slice_join (encodeText [0x41, 0x09, 0x100]) 0 3 = js ''419100''"
proof (intro impI conjI allI)
  assume u: "utf16 t"
  show "encodeText t = map (\<lambda>cp. toString16 (winAnsi cp)) (codePoints t)"
    using encodeText_loop_eq [OF u, of 0 "[]"] by (simp add: encodeText_def)
next
  fix cp assume "winAnsi cp < 0x10"
  then show "length (toString16 (winAnsi cp)) = 1"
    by (subst toStringRadix.simps) simp
next
  fix cp :: nat assume a: "0xFF < cp \<and> map_of WIN_ANSI_MAP cp = None"
  then show "winAnsi cp = cp" by (simp add: winAnsi_unmapped)
  from a have "(16::nat) ^ 2 \<le> cp" by simp
  then have "2 < length (toString16 cp)"
    by (intro toStringRadix_length_lower) simp_all
  with a show "2 < length (toString16 (winAnsi cp))" by (simp add: winAnsi_unmapped)
next
  show "encodeText [0x09] = [js ''9'']" by (simp add: encode_eval)
  show "encodeText [0x100] = [js ''100'']" by (simp add: encode_eval)
  show "slice_join (encodeText [0x41, 0x09, 0x100]) 0 3 = js ''419100''"
    by (simp add: encode_eval slice_join_def)
qed


theorem standard_font_tokens_unpadded_witness:
  "utf16 [0x09, 0x2603] \<and> encodeText [0x09, 0x2603] = [js ''9'', js ''2603'']
   \<and> length (toString16 (winAnsi 0x09)) = 1 \<and> 2 < length (toString16 (winAnsi 0x2603))"
proof -
  have u: "utf16 [0x09, 0x2603]" by (simp add: utf16_def)
  have m: "map_of WIN_ANSI_MAP 0x09 = None" "map_of WIN_ANSI_MAP 0x2603 = None"
    by (simp_all add: WIN_ANSI_MAP_def)
  have w: "winAnsi 0x09 = 0x09" "winAnsi 0x2603 = 0x2603" by (simp_all add: winAnsi_def m)
  have c: "codePoints [0x09, 0x2603] = [0x09, 0x2603]" by simp
  have h: "toString16 0x09 = js ''9''" "toString16 0x2603 = js ''2603''"
    by (simp_all add: toStringRadix.simps digit_char_def js_def)
  from standard_font_tokens_unpadded [of "[0x09, 0x2603]"] u m w c h
  show ?thesis by (simp add: js_def)
qed

section \<open>Properties of the serialiser\<close>

lemma escapable_cases:
  "c \<in> set escapableRe \<longleftrightarrow>
     c = 0x0A \<or> c = 0x0D \<or> c = 0x09 \<or> c = 0x08 \<or> c = 0x0C \<or> c = 0x28 \<or> c = 0x29 \<or> c = 0x5C"
  by (auto simp: escapableRe_def)

lemma replace_escapable_Nil: "replace_escapable [] = []"
  by (simp add: replace_escapable_def)

lemma replace_escapable_append:
  "replace_escapable (a @ b) = replace_escapable a @ replace_escapable b"
  by (simp add: replace_escapable_def)

lemma replace_escapable_Cons:
  "replace_escapable (c # s) = replace_escapable [c] @ replace_escapable s"
  using replace_escapable_append [of "[c]" s] by simp

lemma replace_escapable_other:
  "c \<notin> set escapableRe \<Longrightarrow> replace_escapable [c] = [c]"
  by (simp add: replace_escapable_def)

lemma replace_escapable_table:
  "replace_escapable [0x0A] = [0x5C, 0x6E]"
  "replace_escapable [0x0D] = [0x5C, 0x72]"
  "replace_escapable [0x09] = [0x5C, 0x74]"
  "replace_escapable [0x08] = [0x5C, 0x62]"
  "replace_escapable [0x0C] = [0x5C, 0x66]"
  "replace_escapable [0x5C] = [0x5C, 0x5C]"
  "replace_escapable [0x28] = [0x5C, 0x28]"
  "replace_escapable [0x29] = [0x5C, 0x29]"
  by (simp_all add: replace_escapable_def escapableRe_def escapable_def)

lemma unescape_step:
  "unescape (replace_escapable [c] @ r) = c # unescape r"
proof (cases "c \<in> set escapableRe")
  case True
  then show ?thesis
    unfolding escapable_cases
    by (elim disjE) (simp_all add: replace_escapable_table unescape_char_def)
next
  case False
  then have "c \<noteq> 0x5C" by (auto simp: escapable_cases)
  with False show ?thesis
    by (cases r) (simp_all add: replace_escapable_other)
qed

lemma unescape_replace_escapable: "unescape (replace_escapable s) = s"
proof (induction s)
  case Nil
  show ?case by (simp add: replace_escapable_Nil)
next
  case (Cons c s)
  have "unescape (replace_escapable (c # s)) = c # unescape (replace_escapable s)"
    by (subst replace_escapable_Cons) (rule unescape_step)
  with Cons show ?case by simp
qed

text \<open>
  Claim C6. A string all of whose code units are at most 0x7F is written as a literal in
  parentheses in which each of the eight characters line feed, carriage return, tab,
  backspace, form feed, backslash and the two parentheses is replaced by its two-character
  escape sequence, and every other character is kept as it is. Reversing the escape
  sequences gives the string back.
\<close>

theorem ascii_string_escaping:
  "list_all (\<lambda>c. c \<le> 0x7F) s \<longrightarrow>
     convert ns (PdfString s) = Inr (CString (js ''('' @ replace_escapable s @ js '')''))
   \<and> replace_escapable s = concat (map (\<lambda>c. replace_escapable [c]) s)
   \<and> (\<forall>c. c \<notin> {0x0A, 0x0D, 0x09, 0x08, 0x0C, 0x5C, 0x28, 0x29}
          \<longrightarrow> replace_escapable [c] = [c])
   \<and> replace_escapable [0x0A] = [0x5C, 0x6E] \<and> replace_escapable [0x0D] = [0x5C, 0x72]
   \<and> replace_escapable [0x09] = [0x5C, 0x74] \<and> replace_escapable [0x08] = [0x5C, 0x62]
   \<and> replace_escapable [0x0C] = [0x5C, 0x66] \<and> replace_escapable [0x5C] = [0x5C, 0x5C]
   \<and> replace_escapable [0x28] = [0x5C, 0x28] \<and> replace_escapable [0x29] = [0x5C, 0x29]
   \<and> unescape (replace_escapable s) = s"
proof (intro impI conjI allI)
  assume a: "list_all (\<lambda>c. c \<le> 0x7F) s"
  then have "\<not> (\<exists>c \<in> set s. c > 0x7f)"
    by (auto simp: list_all_iff)
  then show "convert ns (PdfString s) = Inr (CString (js ''('' @ replace_escapable s @ js '')''))"
    by (simp add: Let_def)
  show "replace_escapable s = concat (map (\<lambda>c. replace_escapable [c]) s)"
    by (simp add: replace_escapable_def)
  show "unescape (replace_escapable s) = s"
    by (rule unescape_replace_escapable)
next
  fix c :: nat
  assume "c \<notin> {0x0A, 0x0D, 0x09, 0x08, 0x0C, 0x5C, 0x28, 0x29}"
  then have "c \<notin> set escapableRe" by (simp add: escapable_cases)
  then show "replace_escapable [c] = [c]" by (rule replace_escapable_other)
qed (simp_all add: replace_escapable_table)

theorem ascii_string_escaping_witness:
  "list_all (\<lambda>c. c \<le> 0x7F) (js ''a(b)'')
   \<and> convert (\<lambda>n. []) (PdfString (js ''a(b)'')) = Inr (CString [0x28, 0x61, 0x5C, 0x28, 0x62, 0x5C, 0x29, 0x29])
   \<and> unescape [0x61, 0x5C, 0x28, 0x62, 0x5C, 0x29] = js ''a(b)''"
proof -
  have a: "list_all (\<lambda>c. c \<le> 0x7F) (js ''a(b)'')" by (simp add: js_def)
  have r: "replace_escapable (js ''a(b)'') = [0x61, 0x5C, 0x28, 0x62, 0x5C, 0x29]"
    by (simp add: js_def replace_escapable_def escapableRe_def escapable_def)
  from ascii_string_escaping [of "js ''a(b)''" "\<lambda>n. []"] a r show ?thesis
    by (simp add: js_def unescape_char_def)
qed

section \<open>Numbers\<close>

lemma halvings_numeral:
  "halvings (numeral k) x = (if x < 2 then 0 else 1 + halvings (pred_numeral k) (x / 2))"
  by (simp add: numeral_eq_Suc)

lemma doublings_numeral:
  "doublings (numeral k) x = (if 1 \<le> x then 0 else doublings (pred_numeral k) (2 * x) - 1)"
  by (simp add: numeral_eq_Suc)

lemmas double_eval = to_double_def binade_def pow2_def round_half_even_def math_round_def
  halvings_numeral doublings_numeral

lemma number_in_range:
  "- (10 ^ 21) < n \<Longrightarrow> n < 10 ^ 21 \<Longrightarrow>
   number (Finite n) = Inr (Finite (to_double (math_round (to_double (n * 10 ^ 6)) / 10 ^ 6)))"
  by (simp only: number.simps simp_thms if_True)

lemma number_out_of_range:
  "\<not> (- (10 ^ 21) < n \<and> n < 10 ^ 21) \<Longrightarrow>
   number (Finite n) = Inl (UnsupportedNumber (Finite n))"
  by (simp only: number.simps simp_thms if_False)

lemma convert_number:
  "convert ns (PdfNumber n) = (case number n of Inl e \<Rightarrow> Inl e | Inr r \<Rightarrow> Inr (CNumber r))"
  by (simp only: convert.simps)

text \<open>
  The range check of \<open>number\<close>: a finite number strictly between -1e21 and 1e21 is
  converted to a number; any other finite number, an infinity and NaN raise the
  unsupported number error.
\<close>

lemma number_guard:
  "(- (10 ^ 21) < n \<and> n < 10 ^ 21 \<longrightarrow>
      (\<exists>r. convert ns (PdfNumber (Finite n)) = Inr (CNumber (Finite r))))
   \<and> (\<not> (- (10 ^ 21) < n \<and> n < 10 ^ 21) \<longrightarrow>
        convert ns (PdfNumber (Finite n)) = Inl (UnsupportedNumber (Finite n)))
   \<and> convert ns (PdfNumber NaN) = Inl (UnsupportedNumber NaN)
   \<and> convert ns (PdfNumber PosInfinity) = Inl (UnsupportedNumber PosInfinity)
   \<and> convert ns (PdfNumber NegInfinity) = Inl (UnsupportedNumber NegInfinity)"
  by (simp add: convert_number)

text \<open>
  The rounding of \<open>number\<close> is double arithmetic: with \<open>n * 1e6\<close> and the quotient
  rounded to doubles, an integer of thirteen digits and the double next to 0.1234565
  do not give the nearest multiple of one millionth. The product of 1000000000001 is
  rounded to 1000000000000999936 and the quotient to \<open>1000000000001 - 2^(-13)\<close>; the
  double next to 0.1234565 is below it, its product is rounded up to 123456.5, and
  \<open>Math.round\<close> gives 123457. Small integers and zero are kept.
\<close>

lemma number_double_rounding:
  "number (Finite 1000000000001) = Inr (Finite (1000000000001 - 1 / 8192))"
  "number (Finite (4447989179171725 / 36028797018963968))
     = Inr (Finite (8896014387140469 / 72057594037927936))"
  "number (Finite 3) = Inr (Finite 3)"
  "number (Finite 0) = Inr (Finite 0)"
  "number (Finite (- 5 / 2)) = Inr (Finite (- 5 / 2))"
  by (simp_all add: double_eval)

section \<open>The writer: what each operation pushes\<close>

lemma x_write_pushed: "pushed (x_write d w) = pushed d @ [Some (wbytes w)]"
  by (cases w) (simp_all add: Let_def)

lemma x_write_offset: "x_offset (x_write d w) = x_offset d + length (wbytes w)"
  by (cases w) (simp_all add: Let_def)

lemma x_write_fields:
  "x_offsets (x_write d w) = x_offsets d"
  "x_waiting (x_write d w) = x_waiting d"
  "x_ended (x_write d w) = x_ended d"
  "x_root (x_write d w) = x_root d"
  "x_info (x_write d w) = x_info d"
  "x_id (x_write d w) = x_id d"
  "x_security (x_write d w) = x_security d"
  by (cases w; simp add: Let_def)+

declare x_write.simps [simp del]

lemma fold_write_pushed:
  "pushed (fold (\<lambda>x d. x_write d (f x)) xs d) = pushed d @ map (\<lambda>x. Some (wbytes (f x))) xs"
  by (induction xs arbitrary: d) (simp_all add: x_write_pushed)

lemma fold_write_offset:
  "x_offset (fold (\<lambda>x d. x_write d (f x)) xs d)
     = x_offset d + length (concat (map (\<lambda>x. wbytes (f x)) xs))"
  by (induction xs arbitrary: d) (simp_all add: x_write_offset)

lemma fold_write_fields:
  "x_offsets (fold (\<lambda>x d. x_write d (f x)) xs d) = x_offsets d"
  "x_waiting (fold (\<lambda>x d. x_write d (f x)) xs d) = x_waiting d"
  "x_ended (fold (\<lambda>x d. x_write d (f x)) xs d) = x_ended d"
  "x_root (fold (\<lambda>x d. x_write d (f x)) xs d) = x_root d"
  "x_info (fold (\<lambda>x d. x_write d (f x)) xs d) = x_info d"
  "x_id (fold (\<lambda>x d. x_write d (f x)) xs d) = x_id d"
  "x_security (fold (\<lambda>x d. x_write d (f x)) xs d) = x_security d"
  by (induction xs arbitrary: d; simp add: x_write_fields)+

lemma bytes_append: "bytes (a @ b) = bytes a @ bytes b"
  by (simp add: bytes_def)

lemma bytes_single: "bytes [Some b] = b" "bytes [None] = []" "bytes [] = []"
  by (simp_all add: bytes_def)

lemma bytes_Cons: "bytes (Some b # cs) = b @ bytes cs" "bytes (None # cs) = bytes cs"
  by (simp_all add: bytes_def)

lemma bytes_map_Some: "bytes (map (\<lambda>x. Some (g x)) xs) = concat (map g xs)"
  by (induction xs) (simp_all add: bytes_def)

lemma consistent_write: "consistent d \<Longrightarrow> consistent (x_write d w)"
  by (simp add: consistent_def x_write_pushed x_write_offset bytes_append bytes_single)

lemma consistent_fold:
  "consistent d \<Longrightarrow> consistent (fold (\<lambda>x d. x_write d (f x)) xs d)"
  by (induction xs arbitrary: d) (simp_all add: consistent_write)

lemma consistent_update:
  "consistent (d\<lparr>x_offsets := a\<rparr>) = consistent d"
  "consistent (d\<lparr>x_waiting := b\<rparr>) = consistent d"
  "consistent (d\<lparr>x_ended := c\<rparr>) = consistent d"
  by (simp_all add: consistent_def)

lemma consistent_eof: "consistent d \<Longrightarrow> consistent (d\<lparr>pushed := pushed d @ [None]\<rparr>)"
  by (simp add: consistent_def bytes_append bytes_single)

lemma x_finalize_result:
  assumes "x_finalize ns d = Inr d'"
  shows "\<exists>dict. pushed d' = pushed d @ xref_section (x_offsets d)
                      @ trailer_section dict (x_offset d)"
    and "x_offsets d' = x_offsets d" and "x_waiting d' = x_waiting d"
    and "x_ended d' = x_ended d" and "consistent d \<Longrightarrow> consistent d'"
proof -
  define d1 where "d1 = x_write d (WString (js ''xref''))"
  define d2 where "d2 = x_write d1 (WString (js ''0 '' @ toString10 (length (x_offsets d1) + 1)))"
  define d3 where "d3 = x_write d2 (WString (js ''0000000000 65535 f ''))"
  define f where "f = (\<lambda>off. WString (slice_last 10 (js ''0000000000'' @ offset_str off)
                                 @ js '' 00000 n ''))"
  define d4 where "d4 = fold (\<lambda>off d. x_write d (f off)) (x_offsets d3) d3"
  define d5 where "d5 = x_write d4 (WString (js ''trailer''))"
  define fin where "fin = (\<lambda>c. x_write (x_write (x_write (x_write d5 (WString (toStr ns c)))
                  (WString (js ''startxref''))) (WString (toString10 (x_offset d))))
                  (WString (js ''%%EOF'')))"
  have u: "x_finalize ns d =
      (case convert ns (trailer d5) of Inl e \<Rightarrow> Inl e
       | Inr c \<Rightarrow> Inr ((fin c)\<lparr>pushed := pushed (fin c) @ [None]\<rparr>))"
    by (simp only: x_finalize_def Let_def d5_def d4_def d3_def d2_def d1_def f_def fin_def)
  from assms u obtain c where c: "convert ns (trailer d5) = Inr c"
    and d': "d' = (fin c)\<lparr>pushed := pushed (fin c) @ [None]\<rparr>"
    by (cases "convert ns (trailer d5)") simp_all
  have o3: "x_offsets d3 = x_offsets d" "x_offsets d1 = x_offsets d"
    by (simp_all only: d3_def d2_def d1_def x_write_fields)
  have p3: "pushed d3 = pushed d @ [Some (binary (js ''xref'' @ [0x0A])),
      Some (binary (js ''0 '' @ toString10 (length (x_offsets d) + 1) @ [0x0A])),
      Some (binary (js ''0000000000 65535 f '' @ [0x0A]))]"
    by (simp add: d3_def d2_def x_write_pushed o3) (simp add: d1_def x_write_pushed)
  have p4: "pushed d4 = pushed d3 @ map (\<lambda>off. Some (xref_entry off)) (x_offsets d)"
    by (simp add: d4_def fold_write_pushed o3 f_def xref_entry_def)
  have p5: "pushed d5 = pushed d @ xref_section (x_offsets d) @ [Some (binary (js ''trailer'' @ [0x0A]))]"
    by (simp add: d5_def x_write_pushed p4 p3 xref_section_def)
  have pf: "pushed (fin c) = pushed d5 @ [Some (binary (toStr ns c @ [0x0A])),
      Some (binary (js ''startxref'' @ [0x0A])),
      Some (binary (toString10 (x_offset d) @ [0x0A])),
      Some (binary (js ''%%EOF'' @ [0x0A]))]"
    by (simp add: fin_def x_write_pushed)
  show "\<exists>dict. pushed d' = pushed d @ xref_section (x_offsets d)
                      @ trailer_section dict (x_offset d)"
    by (rule exI [of _ "binary (toStr ns c @ [0x0A])"])
       (simp add: d' pf p5 trailer_section_def)
  have ff: "x_offsets (fin c) = x_offsets d" "x_waiting (fin c) = x_waiting d"
    "x_ended (fin c) = x_ended d"
    by (simp_all only: fin_def d5_def d4_def d3_def d2_def d1_def x_write_fields fold_write_fields)
  show "x_offsets d' = x_offsets d" "x_waiting d' = x_waiting d" "x_ended d' = x_ended d"
    by (simp_all add: d' ff)
  show "consistent d'" if "consistent d"
  proof -
    from that have "consistent d5"
      unfolding d5_def d4_def d3_def d2_def d1_def
      by (intro consistent_write consistent_fold)
    then have "consistent (fin c)"
      unfolding fin_def by (intro consistent_write)
    then show ?thesis
      unfolding d' by (rule consistent_eof)
  qed
qed

lemma x_refEnd_result:
  assumes "x_refEnd ns d r = Inr d'"
  shows "x_offsets d' = set_offset (x_offsets d) (ref_id r) (ref_offset r)"
    and "x_waiting d' = x_waiting d - 1"
    and "x_waiting d = 1 \<and> x_ended d \<Longrightarrow>
           (\<exists>dict. pushed d' = pushed d @ xref_section (x_offsets d')
                      @ trailer_section dict (x_offset d)) \<and> \<not> x_ended d'"
    and "\<not> (x_waiting d = 1 \<and> x_ended d) \<Longrightarrow> pushed d' = pushed d \<and> x_ended d' = x_ended d"
    and "consistent d \<Longrightarrow> consistent d'"
proof -
  define d1 where "d1 = d\<lparr>x_offsets := set_offset (x_offsets d) (ref_id r) (ref_offset r),
                  x_waiting := x_waiting d - 1\<rparr>"
  have u: "x_refEnd ns d r =
     (if x_waiting d1 = 0 \<and> x_ended d1 then
           (case x_finalize ns d1 of
              Inl e \<Rightarrow> Inl e
            | Inr d2 \<Rightarrow> Inr (d2\<lparr>x_ended := False\<rparr>))
         else Inr d1)"
    by (simp only: x_refEnd_def Let_def d1_def)
  have f1: "x_offsets d1 = set_offset (x_offsets d) (ref_id r) (ref_offset r)"
    "x_waiting d1 = x_waiting d - 1" "x_ended d1 = x_ended d" "pushed d1 = pushed d"
    "x_offset d1 = x_offset d" "consistent d1 = consistent d"
    by (simp_all add: d1_def consistent_def)
  show "x_offsets d' = set_offset (x_offsets d) (ref_id r) (ref_offset r)"
    and "x_waiting d' = x_waiting d - 1"
    and "x_waiting d = 1 \<and> x_ended d \<Longrightarrow>
           (\<exists>dict. pushed d' = pushed d @ xref_section (x_offsets d')
                      @ trailer_section dict (x_offset d)) \<and> \<not> x_ended d'"
    and "\<not> (x_waiting d = 1 \<and> x_ended d) \<Longrightarrow> pushed d' = pushed d \<and> x_ended d' = x_ended d"
    and "consistent d \<Longrightarrow> consistent d'"
  proof -
    show a: "x_offsets d' = set_offset (x_offsets d) (ref_id r) (ref_offset r)"
    proof (cases "x_waiting d1 = 0 \<and> x_ended d1")
      case True
      with assms u obtain d2 where d2: "x_finalize ns d1 = Inr d2" "d' = d2\<lparr>x_ended := False\<rparr>"
        by (cases "x_finalize ns d1") simp_all
      from x_finalize_result(2) [OF d2(1)] d2(2) f1 show ?thesis by simp
    next
      case False
      with assms u have "d' = d1" by simp
      with f1 show ?thesis by simp
    qed
    show "x_waiting d' = x_waiting d - 1"
    proof (cases "x_waiting d1 = 0 \<and> x_ended d1")
      case True
      with assms u obtain d2 where d2: "x_finalize ns d1 = Inr d2" "d' = d2\<lparr>x_ended := False\<rparr>"
        by (cases "x_finalize ns d1") simp_all
      from x_finalize_result(3) [OF d2(1)] d2(2) f1 show ?thesis by simp
    next
      case False
      with assms u have "d' = d1" by simp
      with f1 show ?thesis by simp
    qed
    show "(\<exists>dict. pushed d' = pushed d @ xref_section (x_offsets d')
                      @ trailer_section dict (x_offset d)) \<and> \<not> x_ended d'"
      if t: "x_waiting d = 1 \<and> x_ended d"
    proof -
      from t f1 have "x_waiting d1 = 0 \<and> x_ended d1" by simp
      with assms u obtain d2 where d2: "x_finalize ns d1 = Inr d2" "d' = d2\<lparr>x_ended := False\<rparr>"
        by (cases "x_finalize ns d1") simp_all
      from x_finalize_result(1) [OF d2(1)] obtain dict where
        "pushed d2 = pushed d1 @ xref_section (x_offsets d1) @ trailer_section dict (x_offset d1)"
        by blast
      with d2(2) f1 a show ?thesis by auto
    qed
    show "pushed d' = pushed d \<and> x_ended d' = x_ended d"
      if "\<not> (x_waiting d = 1 \<and> x_ended d)"
    proof -
      from that f1 have "\<not> (x_waiting d1 = 0 \<and> x_ended d1)" by simp
      with assms u have "d' = d1" by simp
      with f1 show ?thesis by simp
    qed
    show "consistent d'" if c: "consistent d"
    proof (cases "x_waiting d1 = 0 \<and> x_ended d1")
      case True
      with assms u obtain d2 where d2: "x_finalize ns d1 = Inr d2" "d' = d2\<lparr>x_ended := False\<rparr>"
        by (cases "x_finalize ns d1") simp_all
      from x_finalize_result(5) [OF d2(1)] c f1 have "consistent d2" by simp
      with d2(2) show ?thesis by (simp add: consistent_update)
    next
      case False
      with assms u have "d' = d1" by simp
      with f1 c show ?thesis by simp
    qed
  qed
qed

text \<open>The header line and the body chunks an object writes when it is finalized.\<close>

lemma finalize_result:
  assumes "finalize ns r d = Inr (r', d')"
  shows "\<exists>body. None \<notin> set body \<and>
      (if x_waiting d = 1 \<and> x_ended d
       then (\<exists>dict xo. pushed d' = pushed d
                @ Some (binary (toString10 (ref_id r) @ js '' '' @ toString10 (ref_gen r)
                          @ js '' obj'' @ [0x0A])) # body
                @ xref_section (x_offsets d') @ trailer_section dict xo) \<and> \<not> x_ended d'
       else pushed d' = pushed d
                @ Some (binary (toString10 (ref_id r) @ js '' '' @ toString10 (ref_gen r)
                          @ js '' obj'' @ [0x0A])) # body
            \<and> x_ended d' = x_ended d)"
    and "x_offsets d' = set_offset (x_offsets d) (ref_id r) (Some (x_offset d))"
    and "x_waiting d' = x_waiting d - 1"
    and "ref_offset r' = Some (x_offset d)" and "ref_id r' = ref_id r"
    and "ref_gen r' = ref_gen r"
    and "consistent d \<Longrightarrow> consistent d'"
proof -
  define r1 where "r1 = r\<lparr>ref_offset := Some (x_offset d)\<rparr>"
  define hdr where "hdr = toString10 (ref_id r1) @ js '' '' @ toString10 (ref_gen r1) @ js '' obj''"
  have hdr: "hdr = toString10 (ref_id r) @ js '' '' @ toString10 (ref_gen r) @ js '' obj''"
    by (simp add: hdr_def r1_def)
  define d1 where "d1 = x_write d (WString hdr)"
  define d3 where "d3 = (\<lambda>c. let d2 = x_write d1 (WString (toStr ns c)) in
                     if ref_chunks r1 \<noteq> [] then
                          x_write
                            (fold (\<lambda>chunk d. x_write d (WBuffer chunk)) (ref_chunks r1)
                               (x_write d2 (WString (js ''stream''))))
                            (WString (0x0A # js ''endstream''))
                        else d2)"
  define r2 where "r2 = (if ref_chunks r1 \<noteq> [] then r1\<lparr>ref_chunks := []\<rparr> else r1)"
  define d4 where "d4 = (\<lambda>c. x_write (d3 c) (WString (js ''endobj'')))"
  have u: "finalize ns r d =
     (case convert ns (ref_data r1) of
           Inl e \<Rightarrow> Inl e
         | Inr c \<Rightarrow> (case x_refEnd ns (d4 c) r2 of
                   Inl e \<Rightarrow> Inl e
                 | Inr d5 \<Rightarrow> Inr (r2, d5)))"
    by (simp only: finalize_def Let_def d4_def d3_def d1_def hdr_def r2_def r1_def)
  from assms u obtain c where c: "convert ns (ref_data r1) = Inr c"
    and e: "x_refEnd ns (d4 c) r2 = Inr d'" and r': "r' = r2"
    by (auto split: sum.splits)
  define body where "body = (Some (wbytes (WString (toStr ns c))) #
      (if ref_chunks r \<noteq> [] then
         Some (wbytes (WString (js ''stream''))) # map (\<lambda>ch. Some (wbytes (WBuffer ch))) (ref_chunks r)
           @ [Some (wbytes (WString (0x0A # js ''endstream'')))]
       else [])) @ [Some (wbytes (WString (js ''endobj'')))]"
  have nb: "None \<notin> set body"
    by (auto simp: body_def)
  have p4: "pushed (d4 c) = pushed d @ Some (binary (hdr @ [0x0A])) # body"
    by (simp add: d4_def d3_def d1_def r1_def Let_def x_write_pushed fold_write_pushed body_def)
  have f4: "x_offsets (d4 c) = x_offsets d" "x_waiting (d4 c) = x_waiting d"
     "x_ended (d4 c) = x_ended d"
    by (simp_all add: d4_def d3_def d1_def Let_def x_write_fields fold_write_fields)
  have fr: "ref_offset r2 = Some (x_offset d)" "ref_id r2 = ref_id r" "ref_gen r2 = ref_gen r"
    by (simp_all add: r2_def r1_def)
  show "x_offsets d' = set_offset (x_offsets d) (ref_id r) (Some (x_offset d))"
    using x_refEnd_result(1) [OF e] f4 fr by simp
  show "x_waiting d' = x_waiting d - 1"
    using x_refEnd_result(2) [OF e] f4 by simp
  show "ref_offset r' = Some (x_offset d)" "ref_id r' = ref_id r" "ref_gen r' = ref_gen r"
    using fr r' by simp_all
  show "consistent d'" if "consistent d"
  proof -
    from that have "consistent (d4 c)"
      unfolding d4_def d3_def d1_def Let_def
      by (auto intro!: consistent_write consistent_fold)
    then show ?thesis by (rule x_refEnd_result(5) [OF e])
  qed
  show "\<exists>body. None \<notin> set body \<and>
      (if x_waiting d = 1 \<and> x_ended d
       then (\<exists>dict xo. pushed d' = pushed d
                @ Some (binary (toString10 (ref_id r) @ js '' '' @ toString10 (ref_gen r)
                          @ js '' obj'' @ [0x0A])) # body
                @ xref_section (x_offsets d') @ trailer_section dict xo) \<and> \<not> x_ended d'
       else pushed d' = pushed d
                @ Some (binary (toString10 (ref_id r) @ js '' '' @ toString10 (ref_gen r)
                          @ js '' obj'' @ [0x0A])) # body
            \<and> x_ended d' = x_ended d)"
  proof (cases "x_waiting d = 1 \<and> x_ended d")
    case True
    then have "x_waiting (d4 c) = 1 \<and> x_ended (d4 c)" using f4 by simp
    from x_refEnd_result(3) [OF e this] obtain dict where
      "pushed d' = pushed (d4 c) @ xref_section (x_offsets d') @ trailer_section dict (x_offset (d4 c))"
      "\<not> x_ended d'" by blast
    with p4 True nb show ?thesis
      by (intro exI [of _ body]) (auto simp: hdr)
  next
    case False
    then have "\<not> (x_waiting (d4 c) = 1 \<and> x_ended (d4 c))" using f4 by simp
    from x_refEnd_result(4) [OF e this] p4 f4 False nb show ?thesis
      by (intro exI [of _ body]) (auto simp: hdr)
  qed
qed

lemma finalize_chunks:
  assumes "finalize ns r d = Inr (r', d')"
  shows "if x_waiting d = 1 \<and> x_ended d
       then \<exists>dict xo. pushed d' = pushed d @ object_chunks ns r
                @ xref_section (x_offsets d') @ trailer_section dict xo
       else pushed d' = pushed d @ object_chunks ns r"
proof -
  define r1 where "r1 = r\<lparr>ref_offset := Some (x_offset d)\<rparr>"
  define hdr where "hdr = toString10 (ref_id r1) @ js '' '' @ toString10 (ref_gen r1) @ js '' obj''"
  have hdr: "hdr = toString10 (ref_id r) @ js '' '' @ toString10 (ref_gen r) @ js '' obj''"
    by (simp add: hdr_def r1_def)
  define d1 where "d1 = x_write d (WString hdr)"
  define d3 where "d3 = (\<lambda>c. let d2 = x_write d1 (WString (toStr ns c)) in
                     if ref_chunks r1 \<noteq> [] then
                          x_write
                            (fold (\<lambda>chunk d. x_write d (WBuffer chunk)) (ref_chunks r1)
                               (x_write d2 (WString (js ''stream''))))
                            (WString (0x0A # js ''endstream''))
                        else d2)"
  define r2 where "r2 = (if ref_chunks r1 \<noteq> [] then r1\<lparr>ref_chunks := []\<rparr> else r1)"
  define d4 where "d4 = (\<lambda>c. x_write (d3 c) (WString (js ''endobj'')))"
  have u: "finalize ns r d =
     (case convert ns (ref_data r1) of
           Inl e \<Rightarrow> Inl e
         | Inr c \<Rightarrow> (case x_refEnd ns (d4 c) r2 of
                   Inl e \<Rightarrow> Inl e
                 | Inr d5 \<Rightarrow> Inr (r2, d5)))"
    by (simp only: finalize_def Let_def d4_def d3_def d1_def hdr_def r2_def r1_def)
  from assms u obtain c where c: "convert ns (ref_data r1) = Inr c"
    and e: "x_refEnd ns (d4 c) r2 = Inr d'"
    by (auto split: sum.splits)
  from c have c': "convert ns (ref_data r) = Inr c" by (simp add: r1_def)
  have p4: "pushed (d4 c) = pushed d @ object_chunks ns r"
    by (simp add: d4_def d3_def d1_def r1_def Let_def x_write_pushed fold_write_pushed
        object_chunks_def c' hdr)
  have f4: "x_waiting (d4 c) = x_waiting d" "x_ended (d4 c) = x_ended d"
    by (simp_all add: d4_def d3_def d1_def Let_def x_write_fields fold_write_fields)
  show ?thesis
  proof (cases "x_waiting d = 1 \<and> x_ended d")
    case True
    then have "x_waiting (d4 c) = 1 \<and> x_ended (d4 c)" using f4 by simp
    from x_refEnd_result(3) [OF e this] obtain dict where
      "pushed d' = pushed (d4 c) @ xref_section (x_offsets d') @ trailer_section dict (x_offset (d4 c))"
      by blast
    with p4 True show ?thesis by auto
  next
    case False
    then have "\<not> (x_waiting (d4 c) = 1 \<and> x_ended (d4 c))" using f4 by simp
    from x_refEnd_result(4) [OF e this] p4 False show ?thesis by auto
  qed
qed

lemma doc_end_result:
  assumes "doc_end ns d = Inr d'"
  shows "x_offsets d' = x_offsets d" and "x_waiting d' = x_waiting d"
    and "x_waiting d = 0 \<Longrightarrow>
           \<exists>dict. pushed d' = pushed d @ xref_section (x_offsets d')
                      @ trailer_section dict (x_offset d)"
    and "x_waiting d \<noteq> 0 \<Longrightarrow> pushed d' = pushed d \<and> x_ended d'"
    and "x_waiting d = 0 \<Longrightarrow> x_ended d' = x_ended d"
    and "consistent d \<Longrightarrow> consistent d'"
proof -
  show "x_offsets d' = x_offsets d"
    using assms x_finalize_result(2) [of ns d d']
    by (auto simp: doc_end_def split: if_splits)
  show "x_waiting d' = x_waiting d"
    using assms x_finalize_result(3) [of ns d d']
    by (auto simp: doc_end_def split: if_splits)
  show "\<exists>dict. pushed d' = pushed d @ xref_section (x_offsets d')
                      @ trailer_section dict (x_offset d)" if "x_waiting d = 0"
    using assms that x_finalize_result(1,2) [of ns d d']
    by (auto simp: doc_end_def)
  show "pushed d' = pushed d \<and> x_ended d'" if "x_waiting d \<noteq> 0"
    using assms that by (auto simp: doc_end_def)
  show "x_ended d' = x_ended d" if "x_waiting d = 0"
    using assms that x_finalize_result(4) [of ns d d'] by (auto simp: doc_end_def)
  show "consistent d'" if "consistent d"
    using assms that x_finalize_result(5) [of ns d d']
    by (auto simp: doc_end_def consistent_update split: if_splits)
qed

section \<open>The invariant of a run\<close>

lemma allocated_append: "allocated (a @ b) = allocated a + allocated b"
  by (induction a rule: allocated.induct) simp_all

lemma finalized_append: "finalized (a @ b) = finalized a @ finalized b"
  by (induction a rule: finalized.induct) simp_all

lemma run_append:
  "run ns (a @ b) s = (case run ns a s of Inl e \<Rightarrow> Inl e | Inr s' \<Rightarrow> run ns b s')"
  by (induction a arbitrary: s) (simp_all split: sum.splits)

lemma run_snoc:
  "run ns (evs @ [e]) s = (case run ns evs s of Inl err \<Rightarrow> Inl err | Inr s' \<Rightarrow> step ns e s')"
  by (simp add: run_append split: sum.splits)

lemma header_stable:
  assumes "take n (drop off bs) = h" and "length h = n"
  shows "take n (drop off (bs @ cs)) = h"
proof (cases "n = 0")
  case True
  with assms show ?thesis by simp
next
  case False
  from assms have "length (take n (drop off bs)) = n" by simp
  then have "min n (length bs - off) = n" by (simp add: min_def split: if_splits)
  with False have "n \<le> length bs - off" "off < length bs" by auto
  then show ?thesis using assms by simp
qed

lemma header_at_end:
  "take (length h) (drop (length bs) (bs @ h @ cs)) = h"
  by simp

lemma obj_header_eq:
  "binary (toString10 i @ js '' '' @ toString10 0 @ js '' obj'' @ [0x0A]) = obj_header i"
  by (simp add: obj_header_def js_def toStringRadix.simps [of 10 0] digit_char_def)

lemma run_inv_new: "run_inv [] (new_state c i f)"
  by (simp add: run_inv_def new_state_def new_document_def consistent_def bytes_def)


lemma run_inv_len: "run_inv evs s \<Longrightarrow> length (x_offsets (doc s)) = allocated evs"
  by (simp add: run_inv_def)

lemma run_inv_waiting:
  "run_inv evs s \<Longrightarrow> x_waiting (doc s) = int (allocated evs) - int (length (finalized evs))"
  by (simp add: run_inv_def)

lemma run_inv_ended: "run_inv evs s \<Longrightarrow> x_ended (doc s) \<Longrightarrow> End \<in> set evs"
  by (simp add: run_inv_def)

lemma run_inv_dom: "run_inv evs s \<Longrightarrow> refs s i \<noteq> None \<longleftrightarrow> 1 \<le> i \<and> i \<le> allocated evs"
  unfolding run_inv_def by blast

lemma run_inv_ids: "run_inv evs s \<Longrightarrow> refs s i = Some r \<Longrightarrow> ref_id r = i \<and> ref_gen r = 0"
  unfolding run_inv_def by blast

lemma run_inv_fin:
  "run_inv evs s \<Longrightarrow> i \<in> set (finalized evs) \<Longrightarrow>
   \<exists>r off. refs s i = Some r \<and> ref_offset r = Some off \<and> x_offsets (doc s) ! (i - 1) = Some off"
  unfolding run_inv_def by blast

lemma run_inv_consistent: "run_inv evs s \<Longrightarrow> consistent (doc s)"
  by (simp add: run_inv_def)

lemma run_inv_header:
  "run_inv evs s \<Longrightarrow> refs s i = Some r \<Longrightarrow> ref_offset r = Some off \<Longrightarrow>
   take (length (obj_header i)) (drop off (bytes (pushed (doc s)))) = obj_header i"
  unfolding run_inv_def by blast

lemma run_inv_fin_range:
  "run_inv evs s \<Longrightarrow> i \<in> set (finalized evs) \<Longrightarrow> 1 \<le> i \<and> i \<le> allocated evs"
  using run_inv_fin [of evs s i] run_inv_dom [of evs s i] by auto

lemma inv_Ref:
  assumes inv: "run_inv evs s" and st: "step ns (Ref dat) s = Inr s'"
  shows "run_inv (evs @ [Ref dat]) s'"
proof -
  define r where "r = \<lparr>ref_id = length (x_offsets (doc s)) + 1, ref_gen = 0,
       ref_data = (case dat of None \<Rightarrow> PdfObject [] | Some v \<Rightarrow> v),
       ref_chunks = [], ref_offset = None\<rparr>"
  from st have s': "s' = s\<lparr>doc := (doc s)\<lparr>x_offsets := x_offsets (doc s) @ [None],
        x_waiting := x_waiting (doc s) + 1\<rparr>, refs := (refs s)(length (x_offsets (doc s)) + 1 \<mapsto> r)\<rparr>"
    by (simp add: doc_ref_def r_def)
  from inv have len: "length (x_offsets (doc s)) = allocated evs"
    and dom: "\<And>i. refs s i \<noteq> None \<longleftrightarrow> 1 \<le> i \<and> i \<le> allocated evs"
    by (simp_all add: run_inv_def)
  have fin: "\<And>i. i \<in> set (finalized evs) \<Longrightarrow> 1 \<le> i \<and> i \<le> allocated evs"
    using inv dom unfolding run_inv_def by (metis option.distinct(1))
  show ?thesis
    unfolding run_inv_def
  proof (intro conjI allI impI ballI)
    show "length (x_offsets (doc s')) = allocated (evs @ [Ref dat])"
      by (simp add: s' len allocated_append)
    show "x_waiting (doc s') = int (allocated (evs @ [Ref dat])) - int (length (finalized (evs @ [Ref dat])))"
      using inv by (simp add: s' run_inv_def allocated_append finalized_append)
    show "End \<in> set (evs @ [Ref dat])" if "x_ended (doc s')"
      using inv that by (simp add: s' run_inv_def)
    show "(refs s' i \<noteq> None) = (1 \<le> i \<and> i \<le> allocated (evs @ [Ref dat]))" for i
      using dom [of i] by (auto simp: s' len allocated_append)
    show "ref_id r' = i" "ref_gen r' = 0" if "refs s' i = Some r'" for i r'
      using inv that by (auto simp: s' run_inv_def r_def split: if_splits)
    show "\<exists>r off. refs s' i = Some r \<and> ref_offset r = Some off
          \<and> x_offsets (doc s') ! (i - 1) = Some off"
      if "i \<in> set (finalized (evs @ [Ref dat]))" for i
    proof -
      from that have i: "i \<in> set (finalized evs)" by (simp add: finalized_append)
      with inv obtain r0 off where "refs s i = Some r0" "ref_offset r0 = Some off"
        "x_offsets (doc s) ! (i - 1) = Some off"
        unfolding run_inv_def by blast
      moreover from fin [OF i] len have "i - 1 < length (x_offsets (doc s))" "i \<noteq> length (x_offsets (doc s)) + 1"
        by auto
      ultimately show ?thesis by (simp add: s' nth_append)
    qed
    show "consistent (doc s')"
      using inv by (simp add: s' run_inv_def consistent_def)
    show "take (length (obj_header i)) (drop off (bytes (pushed (doc s')))) = obj_header i"
      if "refs s' i = Some r' \<and> ref_offset r' = Some off" for i r' off
      using inv that unfolding run_inv_def
      by (auto simp: s' r_def split: if_splits)
  qed
qed

lemma inv_RefUpdate:
  assumes inv: "run_inv evs s" and st: "step ns (RefUpdate j dat chunks) s = Inr s'"
  shows "run_inv (evs @ [RefUpdate j dat chunks]) s'"
proof -
  from st obtain r where r: "refs s j = Some r"
    and s': "s' = s\<lparr>refs := (refs s)(j \<mapsto> r\<lparr>ref_data := dat, ref_chunks := chunks\<rparr>)\<rparr>"
    by (auto split: option.splits)
  show ?thesis
    unfolding run_inv_def
  proof (intro conjI allI impI ballI)
    show "length (x_offsets (doc s')) = allocated (evs @ [RefUpdate j dat chunks])"
      using inv by (simp add: s' run_inv_def allocated_append)
    show "x_waiting (doc s') = int (allocated (evs @ [RefUpdate j dat chunks]))
        - int (length (finalized (evs @ [RefUpdate j dat chunks])))"
      using inv by (simp add: s' run_inv_def allocated_append finalized_append)
    show "End \<in> set (evs @ [RefUpdate j dat chunks])" if "x_ended (doc s')"
      using inv that by (simp add: s' run_inv_def)
    show "(refs s' i \<noteq> None) = (1 \<le> i \<and> i \<le> allocated (evs @ [RefUpdate j dat chunks]))" for i
      using inv r by (auto simp: s' run_inv_def allocated_append)
    show "ref_id r' = i" "ref_gen r' = 0" if "refs s' i = Some r'" for i r'
      using inv that r by (auto simp: s' run_inv_def split: if_splits)
    show "\<exists>r off. refs s' i = Some r \<and> ref_offset r = Some off
          \<and> x_offsets (doc s') ! (i - 1) = Some off"
      if "i \<in> set (finalized (evs @ [RefUpdate j dat chunks]))" for i
    proof -
      from that have i: "i \<in> set (finalized evs)" by (simp add: finalized_append)
      with inv obtain r0 off where "refs s i = Some r0" "ref_offset r0 = Some off"
        "x_offsets (doc s) ! (i - 1) = Some off"
        unfolding run_inv_def by blast
      with r show ?thesis by (cases "i = j") (simp_all add: s')
    qed
    show "consistent (doc s')"
      using inv by (simp add: s' run_inv_def)
    show "take (length (obj_header i)) (drop off (bytes (pushed (doc s')))) = obj_header i"
      if "refs s' i = Some r' \<and> ref_offset r' = Some off" for i r' off
    proof (cases "i = j")
      case True
      with that have "ref_offset r = Some off" by (auto simp: s')
      with run_inv_header [OF inv r] True show ?thesis by (simp add: s')
    next
      case False
      with that have "refs s i = Some r'" by (simp add: s')
      with run_inv_header [OF inv, of i r' off] that show ?thesis by (simp add: s')
    qed
  qed
qed

lemma inv_Write:
  assumes inv: "run_inv evs s" and st: "step ns (Write w) s = Inr s'"
  shows "run_inv (evs @ [Write w]) s'"
proof -
  from st have s': "s' = s\<lparr>doc := x_write (doc s) w\<rparr>" by simp
  show ?thesis
    unfolding run_inv_def
  proof (intro conjI allI impI ballI)
    show "length (x_offsets (doc s')) = allocated (evs @ [Write w])"
      using inv by (simp add: s' run_inv_def allocated_append x_write_fields)
    show "x_waiting (doc s') = int (allocated (evs @ [Write w]))
        - int (length (finalized (evs @ [Write w])))"
      using inv by (simp add: s' run_inv_def allocated_append finalized_append x_write_fields)
    show "End \<in> set (evs @ [Write w])" if "x_ended (doc s')"
      using inv that by (simp add: s' run_inv_def x_write_fields)
    show "(refs s' i \<noteq> None) = (1 \<le> i \<and> i \<le> allocated (evs @ [Write w]))" for i
      using inv by (simp add: s' run_inv_def allocated_append)
    show "ref_id r' = i" "ref_gen r' = 0" if "refs s' i = Some r'" for i r'
      using inv that by (auto simp: s' run_inv_def)
    show "\<exists>r off. refs s' i = Some r \<and> ref_offset r = Some off
          \<and> x_offsets (doc s') ! (i - 1) = Some off"
      if "i \<in> set (finalized (evs @ [Write w]))" for i
      using inv that unfolding run_inv_def
      by (simp add: s' finalized_append x_write_fields)
    show "consistent (doc s')"
      using inv by (simp add: s' run_inv_def consistent_write)
    show "take (length (obj_header i)) (drop off (bytes (pushed (doc s')))) = obj_header i"
      if "refs s' i = Some r' \<and> ref_offset r' = Some off" for i r' off
    proof -
      from that have "take (length (obj_header i)) (drop off (bytes (pushed (doc s)))) = obj_header i"
        by (intro run_inv_header [OF inv, of i r' off]) (simp_all add: s')
      moreover have "bytes (pushed (doc s')) = bytes (pushed (doc s)) @ wbytes w"
        by (simp add: s' x_write_pushed bytes_append bytes_single)
      ultimately show ?thesis
        by (simp only: header_stable)
    qed
  qed
qed

lemma set_offset_in_range:
  "1 \<le> i \<Longrightarrow> i \<le> length offs \<Longrightarrow> set_offset offs i v = offs[i - 1 := v]"
  by (auto simp: set_offset_def)

lemma finalize_pushed:
  assumes "finalize ns r d = Inr (r', d')"
  shows "\<exists>rest. pushed d' = pushed d
            @ Some (binary (toString10 (ref_id r) @ js '' '' @ toString10 (ref_gen r)
                      @ js '' obj'' @ [0x0A])) # rest"
  using finalize_result(1) [OF assms] by (auto split: if_splits)

lemma inv_RefFinalize:
  assumes inv: "run_inv evs s" and st: "step ns (RefFinalize j) s = Inr s'"
  shows "run_inv (evs @ [RefFinalize j]) s'"
proof -
  from st obtain r r' d' where r: "refs s j = Some r"
    and f: "finalize ns r (doc s) = Inr (r', d')"
    and s': "s' = s\<lparr>doc := d', refs := (refs s)(j \<mapsto> r')\<rparr>"
    by (auto split: option.splits sum.splits)
  from run_inv_ids [OF inv r] have id: "ref_id r = j" "ref_gen r = 0" by simp_all
  from run_inv_dom [OF inv, of j] r have j: "1 \<le> j" "j \<le> allocated evs" by simp_all
  note len = run_inv_len [OF inv]
  note fr = finalize_result [OF f]
  have offs: "x_offsets d' = (x_offsets (doc s))[j - 1 := Some (x_offset (doc s))]"
    using fr(2) j len id by (simp add: set_offset_in_range)
  from finalize_pushed [OF f] id obtain rest where
    p: "pushed d' = pushed (doc s) @ Some (obj_header j) # rest"
    by (auto simp: obj_header_eq)
  have cons: "consistent (doc s)" by (rule run_inv_consistent [OF inv])
  show ?thesis
    unfolding run_inv_def
  proof (intro conjI allI impI ballI)
    show "length (x_offsets (doc s')) = allocated (evs @ [RefFinalize j])"
      by (simp add: s' offs len allocated_append)
    show "x_waiting (doc s') = int (allocated (evs @ [RefFinalize j]))
        - int (length (finalized (evs @ [RefFinalize j])))"
      using run_inv_waiting [OF inv] fr(3)
      by (simp add: s' allocated_append finalized_append)
    show "End \<in> set (evs @ [RefFinalize j])" if "x_ended (doc s')"
    proof -
      from fr(1) that have "x_ended (doc s)"
        by (auto simp: s' split: if_splits)
      with run_inv_ended [OF inv] show ?thesis by simp
    qed
    show "(refs s' i \<noteq> None) = (1 \<le> i \<and> i \<le> allocated (evs @ [RefFinalize j]))" for i
      using run_inv_dom [OF inv, of i] j by (auto simp: s' allocated_append)
    show "ref_id r0 = i" "ref_gen r0 = 0" if "refs s' i = Some r0" for i r0
      using that run_inv_ids [OF inv, of i r0] fr(5,6) id
      by (auto simp: s' split: if_splits)
    show "\<exists>r off. refs s' i = Some r \<and> ref_offset r = Some off
          \<and> x_offsets (doc s') ! (i - 1) = Some off"
      if "i \<in> set (finalized (evs @ [RefFinalize j]))" for i
    proof (cases "i = j")
      case True
      with fr(4) j len show ?thesis by (simp add: s' offs)
    next
      case False
      with that have i: "i \<in> set (finalized evs)" by (simp add: finalized_append)
      from run_inv_fin [OF inv i] obtain r0 off where "refs s i = Some r0"
        "ref_offset r0 = Some off" "x_offsets (doc s) ! (i - 1) = Some off" by blast
      moreover from run_inv_fin_range [OF inv i] False j have "i - 1 \<noteq> j - 1" by auto
      ultimately show ?thesis using False by (simp add: s' offs)
    qed
    show "consistent (doc s')"
      using fr(7) cons by (simp add: s')
    show "take (length (obj_header i)) (drop off (bytes (pushed (doc s')))) = obj_header i"
      if t: "refs s' i = Some r0 \<and> ref_offset r0 = Some off" for i r0 off
    proof (cases "i = j")
      case True
      with t fr(4) have "off = x_offset (doc s)" by (simp add: s')
      with cons have off: "off = length (bytes (pushed (doc s)))" by (simp add: consistent_def)
      have "bytes (pushed (doc s')) = bytes (pushed (doc s)) @ obj_header j @ bytes rest"
        by (simp add: s' p bytes_append bytes_Cons)
      with off True show ?thesis by simp
    next
      case False
      with t have "refs s i = Some r0" by (simp add: s')
      from run_inv_header [OF inv this] t
      have "take (length (obj_header i)) (drop off (bytes (pushed (doc s)))) = obj_header i"
        by simp
      moreover have "bytes (pushed (doc s')) = bytes (pushed (doc s)) @ bytes (Some (obj_header j) # rest)"
        by (simp add: s' p bytes_append)
      ultimately show ?thesis by (simp only: header_stable)
    qed
  qed
qed

lemma inv_End:
  assumes inv: "run_inv evs s" and st: "step ns End s = Inr s'"
  shows "run_inv (evs @ [End]) s'"
proof -
  from st obtain d' where e: "doc_end ns (doc s) = Inr d'" and s': "s' = s\<lparr>doc := d'\<rparr>"
    by (auto split: sum.splits)
  note er = doc_end_result [OF e]
  have "\<exists>new. pushed d' = pushed (doc s) @ new"
    using er(3,4) by (cases "x_waiting (doc s) = 0") auto
  then obtain new where p: "pushed d' = pushed (doc s) @ new" by blast
  show ?thesis
    unfolding run_inv_def
  proof (intro conjI allI impI ballI)
    show "length (x_offsets (doc s')) = allocated (evs @ [End])"
      using run_inv_len [OF inv] er(1) by (simp add: s' allocated_append)
    show "x_waiting (doc s') = int (allocated (evs @ [End])) - int (length (finalized (evs @ [End])))"
      using run_inv_waiting [OF inv] er(2) by (simp add: s' allocated_append finalized_append)
    show "End \<in> set (evs @ [End])" if "x_ended (doc s')"
      by simp
    show "(refs s' i \<noteq> None) = (1 \<le> i \<and> i \<le> allocated (evs @ [End]))" for i
      using run_inv_dom [OF inv, of i] by (simp add: s' allocated_append)
    show "ref_id r0 = i" "ref_gen r0 = 0" if "refs s' i = Some r0" for i r0
      using that run_inv_ids [OF inv, of i r0] by (simp_all add: s')
    show "\<exists>r off. refs s' i = Some r \<and> ref_offset r = Some off
          \<and> x_offsets (doc s') ! (i - 1) = Some off"
      if "i \<in> set (finalized (evs @ [End]))" for i
      using that run_inv_fin [OF inv, of i] er(1) by (simp add: s' finalized_append)
    show "consistent (doc s')"
      using er(6) run_inv_consistent [OF inv] by (simp add: s')
    show "take (length (obj_header i)) (drop off (bytes (pushed (doc s')))) = obj_header i"
      if t: "refs s' i = Some r0 \<and> ref_offset r0 = Some off" for i r0 off
    proof -
      from t have "refs s i = Some r0" by (simp add: s')
      from run_inv_header [OF inv this] t
      have "take (length (obj_header i)) (drop off (bytes (pushed (doc s)))) = obj_header i"
        by simp
      moreover have "bytes (pushed (doc s')) = bytes (pushed (doc s)) @ bytes new"
        by (simp add: s' p bytes_append)
      ultimately show ?thesis by (simp only: header_stable)
    qed
  qed
qed

lemma inv_step:
  "run_inv evs s \<Longrightarrow> step ns e s = Inr s' \<Longrightarrow> run_inv (evs @ [e]) s'"
  by (cases e) (blast intro: inv_Ref inv_RefUpdate inv_RefFinalize inv_Write inv_End)+

lemma inv_run:
  "run ns evs (new_state c i f) = Inr s \<Longrightarrow> run_inv evs s"
proof (induction evs arbitrary: s rule: rev_induct)
  case Nil
  then show ?case using run_inv_new [of c i f] by simp
next
  case (snoc e evs)
  from snoc.prems obtain s0 where s0: "run ns evs (new_state c i f) = Inr s0"
    and st: "step ns e s0 = Inr s"
    by (auto simp: run_snoc split: sum.splits)
  from inv_step [OF snoc.IH [OF s0] st] show ?case .
qed

section \<open>When the cross-reference section is written\<close>

lemma emitted_append: "pushed (doc s') = pushed (doc s) @ new \<Longrightarrow> emitted s s' = new"
  by (simp add: emitted_def)

lemma all_finalized:
  assumes inv: "run_inv evs s" and once: "finalized_once evs" and w: "x_waiting (doc s) = 0"
  shows "set (finalized evs) = {1..allocated evs}"
proof -
  from run_inv_waiting [OF inv] w have "length (finalized evs) = allocated evs" by simp
  with once have "card (set (finalized evs)) = card {1..allocated evs}"
    by (simp add: finalized_once_def distinct_card)
  moreover have "set (finalized evs) \<subseteq> {1..allocated evs}"
    using run_inv_fin_range [OF inv] by auto
  ultimately show ?thesis by (intro card_subset_eq) simp_all
qed

lemma xref_section_length: "length (xref_section offs) = length offs + 3"
  by (simp add: xref_section_def)

lemma xref_section_nth:
  "1 \<le> k \<Longrightarrow> k \<le> length offs \<Longrightarrow> xref_section offs ! (k + 2) = Some (xref_entry (offs ! (k - 1)))"
  by (cases k) (simp_all add: xref_section_def)

lemma trailer_section_last: "None \<in> set (trailer_section dict xo)"
  by (simp add: trailer_section_def)

lemma step_emits:
  assumes inv: "run_inv evs s" and st: "step ns e s = Inr s'"
    and n: "None \<in> set (emitted s s')"
  shows "End \<in> set (evs @ [e]) \<and> x_waiting (doc s') = 0
     \<and> (\<exists>pre dict xo. emitted s s' = pre @ xref_section (x_offsets (doc s')) @ trailer_section dict xo
            \<and> None \<notin> set pre)"
proof (cases e)
  case (Ref dat)
  with st have "pushed (doc s') = pushed (doc s) @ []"
    by (auto simp: doc_ref_def)
  from emitted_append [OF this] n show ?thesis by simp
next
  case (RefUpdate j dat chunks)
  with st have "pushed (doc s') = pushed (doc s) @ []"
    by (auto split: option.splits)
  from emitted_append [OF this] n show ?thesis by simp
next
  case (Write w)
  with st have "pushed (doc s') = pushed (doc s) @ [Some (wbytes w)]"
    by (auto simp: x_write_pushed)
  from emitted_append [OF this] n show ?thesis by simp
next
  case End
  with st obtain d' where e: "doc_end ns (doc s) = Inr d'" and s': "s' = s\<lparr>doc := d'\<rparr>"
    by (auto split: sum.splits)
  note er = doc_end_result [OF e]
  show ?thesis
  proof (cases "x_waiting (doc s) = 0")
    case True
    from er(3) [OF True] obtain dict where
      "pushed (doc s') = pushed (doc s) @ xref_section (x_offsets (doc s'))
          @ trailer_section dict (x_offset (doc s))"
      by (auto simp: s')
    from emitted_append [OF this]
    have "emitted s s' = [] @ xref_section (x_offsets (doc s'))
          @ trailer_section dict (x_offset (doc s))" by simp
    moreover have "None \<notin> set ([] :: nat list option list)" by simp
    moreover from End have "End \<in> set (evs @ [e])" by simp
    moreover from True er(2) have "x_waiting (doc s') = 0" by (simp add: s')
    ultimately show ?thesis by blast
  next
    case False
    from er(4) [OF False] have "pushed (doc s') = pushed (doc s) @ []" by (simp add: s')
    from emitted_append [OF this] n show ?thesis by simp
  qed
next
  case (RefFinalize j)
  with st obtain r r' d' where r: "refs s j = Some r"
    and f: "finalize ns r (doc s) = Inr (r', d')"
    and s': "s' = s\<lparr>doc := d', refs := (refs s)(j \<mapsto> r')\<rparr>"
    by (auto split: option.splits sum.splits)
  note fr = finalize_result [OF f]
  from fr(1) obtain body where nb: "None \<notin> set body" and
    b: "if x_waiting (doc s) = 1 \<and> x_ended (doc s)
       then (\<exists>dict xo. pushed d' = pushed (doc s)
                @ Some (binary (toString10 (ref_id r) @ js '' '' @ toString10 (ref_gen r)
                          @ js '' obj'' @ [0x0A])) # body
                @ xref_section (x_offsets d') @ trailer_section dict xo) \<and> \<not> x_ended d'
       else pushed d' = pushed (doc s)
                @ Some (binary (toString10 (ref_id r) @ js '' '' @ toString10 (ref_gen r)
                          @ js '' obj'' @ [0x0A])) # body
            \<and> x_ended d' = x_ended (doc s)"
    by blast
  define hdr where "hdr = binary (toString10 (ref_id r) @ js '' '' @ toString10 (ref_gen r)
                          @ js '' obj'' @ [0x0A])"
  show ?thesis
  proof (cases "x_waiting (doc s) = 1 \<and> x_ended (doc s)")
    case True
    with b obtain dict xo where
      "pushed (doc s') = pushed (doc s) @ ((Some hdr # body)
                @ xref_section (x_offsets (doc s')) @ trailer_section dict xo)"
      by (auto simp: s' hdr_def)
    from emitted_append [OF this]
    have "emitted s s' = (Some hdr # body) @ xref_section (x_offsets (doc s')) @ trailer_section dict xo" .
    moreover have "None \<notin> set (Some hdr # body)" using nb by simp
    moreover from True run_inv_ended [OF inv] have "End \<in> set (evs @ [e])" by simp
    moreover from True fr(3) have "x_waiting (doc s') = 0" by (simp add: s')
    ultimately show ?thesis by blast
  next
    case False
    with b have "pushed (doc s') = pushed (doc s) @ (Some hdr # body)"
      by (simp add: s' hdr_def)
    from emitted_append [OF this] n nb show ?thesis by simp
  qed
qed

lemma object_chunks_Some: "None \<notin> set (object_chunks ns r)"
  by (auto simp: object_chunks_def split: sum.splits)

lemma own_chunks_Some: "None \<notin> set (own_chunks ns e s)"
  by (cases e) (auto simp: object_chunks_Some split: option.splits)

lemma xref_section_not_Nil: "xref_section offs \<noteq> []"
  by (simp add: xref_section_def)

lemma step_chunks:
  assumes st: "step ns e s = Inr s'"
  shows "\<exists>tail. emitted s s' = own_chunks ns e s @ tail
     \<and> (if (e = End \<and> x_waiting (doc s) = 0)
            \<or> ((\<exists>i. e = RefFinalize i) \<and> x_waiting (doc s) = 1 \<and> x_ended (doc s))
         then \<exists>dict xo. tail = xref_section (x_offsets (doc s')) @ trailer_section dict xo
         else tail = [])"
proof (cases e)
  case (Ref dat)
  with st have "pushed (doc s') = pushed (doc s) @ []"
    by (auto simp: doc_ref_def)
  from emitted_append [OF this] Ref show ?thesis by simp
next
  case (RefUpdate j dat chunks)
  with st have "pushed (doc s') = pushed (doc s) @ []"
    by (auto split: option.splits)
  from emitted_append [OF this] RefUpdate show ?thesis by simp
next
  case (Write w)
  with st have "pushed (doc s') = pushed (doc s) @ [Some (wbytes w)]"
    by (auto simp: x_write_pushed)
  from emitted_append [OF this] Write show ?thesis by simp
next
  case End
  with st obtain d' where e: "doc_end ns (doc s) = Inr d'" and s': "s' = s\<lparr>doc := d'\<rparr>"
    by (auto split: sum.splits)
  note er = doc_end_result [OF e]
  show ?thesis
  proof (cases "x_waiting (doc s) = 0")
    case True
    from er(3) [OF True] obtain dict where
      "pushed (doc s') = pushed (doc s) @ xref_section (x_offsets (doc s'))
          @ trailer_section dict (x_offset (doc s))"
      by (auto simp: s')
    from emitted_append [OF this] End True show ?thesis by auto
  next
    case False
    from er(4) [OF False] have "pushed (doc s') = pushed (doc s) @ []" by (simp add: s')
    from emitted_append [OF this] End False show ?thesis by simp
  qed
next
  case (RefFinalize j)
  with st obtain r r' d' where r: "refs s j = Some r"
    and f: "finalize ns r (doc s) = Inr (r', d')"
    and s': "s' = s\<lparr>doc := d', refs := (refs s)(j \<mapsto> r')\<rparr>"
    by (auto split: option.splits sum.splits)
  note fc = finalize_chunks [OF f]
  show ?thesis
  proof (cases "x_waiting (doc s) = 1 \<and> x_ended (doc s)")
    case True
    with fc obtain dict xo where
      "pushed (doc s') = pushed (doc s) @ (object_chunks ns r
                @ xref_section (x_offsets (doc s')) @ trailer_section dict xo)"
      by (auto simp: s')
    from emitted_append [OF this] RefFinalize True r show ?thesis by auto
  next
    case False
    with fc have "pushed (doc s') = pushed (doc s) @ object_chunks ns r"
      by (simp add: s')
    from emitted_append [OF this] RefFinalize False r show ?thesis by auto
  qed
qed

text \<open>
  Claim C1. Take any run of the writer from a new document in which references are
  allocated, changed and finalized in any order, each reference at most once. What an
  event of the run pushes on the stream is its own chunks, which are the data of a
  direct write or the header, dictionary, stream and \<open>endobj\<close> of the object that is
  finalized, followed by a tail. The tail is empty, so that nothing of the
  cross-reference section, the trailer, \<open>startxref\<close> or the end-of-file marker is
  pushed, unless \<open>End\<close> has occurred, the pending counter is zero after the event and
  every allocated reference has been finalized. In that case the tail is the
  cross-reference section and the trailer; the section has one entry for each allocated
  id, in ascending id order, and the entry of id \<open>k\<close> is made from the offset that
  reference \<open>k\<close> recorded. The tail is there exactly when the event is \<open>End\<close> with
  nothing pending, or the finalization of the last pending reference after \<open>End\<close>;
  the end of the stream is pushed with the tail only.
\<close>

theorem xref_after_all_finalized:
  assumes run: "run ns evs (new_state c i f) = Inr s"
    and st: "step ns e s = Inr s'"
    and once: "finalized_once (evs @ [e])"
  shows "\<exists>tail. emitted s s' = own_chunks ns e s @ tail
     \<and> None \<notin> set (own_chunks ns e s)
     \<and> (tail \<noteq> [] \<longleftrightarrow>
           (e = End \<and> x_waiting (doc s) = 0)
           \<or> ((\<exists>j. e = RefFinalize j) \<and> x_waiting (doc s) = 1 \<and> x_ended (doc s)))
     \<and> (tail \<noteq> [] \<longrightarrow>
           End \<in> set (evs @ [e]) \<and> x_waiting (doc s') = 0
         \<and> (\<forall>k. 1 \<le> k \<and> k \<le> allocated (evs @ [e]) \<longrightarrow> k \<in> set (finalized (evs @ [e])))
         \<and> (\<exists>dict xo. tail = xref_section (x_offsets (doc s')) @ trailer_section dict xo)
         \<and> length (xref_section (x_offsets (doc s'))) = allocated (evs @ [e]) + 3
         \<and> (\<forall>k. 1 \<le> k \<and> k \<le> allocated (evs @ [e]) \<longrightarrow>
               (\<exists>r off. refs s' k = Some r \<and> ref_offset r = Some off
                  \<and> xref_section (x_offsets (doc s')) ! (k + 2) = Some (xref_entry (Some off)))))"
proof -
  have inv: "run_inv evs s" by (rule inv_run [OF run])
  have inv': "run_inv (evs @ [e]) s'" by (rule inv_step [OF inv st])
  define fin where "fin \<longleftrightarrow> (e = End \<and> x_waiting (doc s) = 0)
           \<or> ((\<exists>j. e = RefFinalize j) \<and> x_waiting (doc s) = 1 \<and> x_ended (doc s))"
  from step_chunks [OF st] obtain tail where
    em: "emitted s s' = own_chunks ns e s @ tail"
    and tl: "if fin then \<exists>dict xo. tail = xref_section (x_offsets (doc s')) @ trailer_section dict xo
         else tail = []"
    unfolding fin_def by blast
  have iff: "tail \<noteq> [] \<longleftrightarrow> fin"
    using tl by (auto simp: xref_section_not_Nil split: if_splits)
  have rest: "End \<in> set (evs @ [e]) \<and> x_waiting (doc s') = 0
         \<and> (\<forall>k. 1 \<le> k \<and> k \<le> allocated (evs @ [e]) \<longrightarrow> k \<in> set (finalized (evs @ [e])))
         \<and> (\<exists>dict xo. tail = xref_section (x_offsets (doc s')) @ trailer_section dict xo)
         \<and> length (xref_section (x_offsets (doc s'))) = allocated (evs @ [e]) + 3
         \<and> (\<forall>k. 1 \<le> k \<and> k \<le> allocated (evs @ [e]) \<longrightarrow>
               (\<exists>r off. refs s' k = Some r \<and> ref_offset r = Some off
                  \<and> xref_section (x_offsets (doc s')) ! (k + 2) = Some (xref_entry (Some off))))"
    if ne: "tail \<noteq> []"
  proof -
    from ne iff have fin by simp
    with tl obtain dict xo where
      t: "tail = xref_section (x_offsets (doc s')) @ trailer_section dict xo" by auto
    with em have n: "None \<in> set (emitted s s')"
      by (simp add: trailer_section_last)
    from step_emits [OF inv st n] have e: "End \<in> set (evs @ [e])"
      and w: "x_waiting (doc s') = 0"
      by blast+
    have all: "set (finalized (evs @ [e])) = {1..allocated (evs @ [e])}"
      by (rule all_finalized [OF inv' once w])
    have len: "length (x_offsets (doc s')) = allocated (evs @ [e])"
      by (rule run_inv_len [OF inv'])
    have ent: "\<exists>r off. refs s' k = Some r \<and> ref_offset r = Some off
              \<and> xref_section (x_offsets (doc s')) ! (k + 2) = Some (xref_entry (Some off))"
      if k: "1 \<le> k \<and> k \<le> allocated (evs @ [e])" for k
    proof -
      from k all have "k \<in> set (finalized (evs @ [e]))" by simp
      from run_inv_fin [OF inv' this] obtain r off where "refs s' k = Some r"
        "ref_offset r = Some off" "x_offsets (doc s') ! (k - 1) = Some off" by blast
      moreover from k len have "xref_section (x_offsets (doc s')) ! (k + 2)
          = Some (xref_entry (x_offsets (doc s') ! (k - 1)))"
        by (intro xref_section_nth) simp_all
      ultimately show ?thesis by simp
    qed
    from t have t': "\<exists>dict xo. tail = xref_section (x_offsets (doc s')) @ trailer_section dict xo"
      by blast
    from e w all len ent t' show ?thesis
      by (simp add: xref_section_length)
  qed
  from em own_chunks_Some [of ns e s] iff rest show ?thesis
    unfolding fin_def by blast
qed

section \<open>The format of a cross-reference entry\<close>

lemma toString10_digits: "c \<in> set (toString10 n) \<Longrightarrow> 48 \<le> c \<and> c \<le> 57"
proof (induction "10::nat" n rule: toStringRadix.induct)
  case (1 n)
  show ?case
  proof (cases "n < 10")
    case True
    with "1.prems" show ?thesis
      by (subst (asm) toStringRadix.simps) (simp add: digit_char_def)
  next
    case False
    have "n mod 10 < 10" by simp
    with "1.prems" "1.hyps" False show ?thesis
      by (subst (asm) toStringRadix.simps) (auto simp: digit_char_def)
  qed
qed

lemma parse_dec_snoc: "parse_dec (ds @ [c]) = 10 * parse_dec ds + (c - 48)"
  by (simp add: parse_dec_def)

lemma parse_dec_toString10: "parse_dec (toString10 n) = n"
proof (induction "10::nat" n rule: toStringRadix.induct)
  case (1 n)
  show ?case
  proof (cases "n < 10")
    case True
    then show ?thesis
      by (subst toStringRadix.simps) (simp add: parse_dec_def digit_char_def)
  next
    case False
    have "n mod 10 < 10" by simp
    then have "digit_char (n mod 10) - 48 = n mod 10" by (simp add: digit_char_def)
    with "1.hyps" False show ?thesis
      by (subst toStringRadix.simps) (simp add: parse_dec_snoc)
  qed
qed

lemma parse_dec_zeros: "parse_dec (replicate k 48 @ ds) = parse_dec ds"
proof -
  have "foldl (\<lambda>a c. 10 * a + (c - 48)) 0 (replicate k (48::nat)) = 0"
    by (induction k) simp_all
  then show ?thesis by (simp add: parse_dec_def)
qed

lemma binary_digits: "binary (toString10 n) = toString10 n"
proof -
  have "\<And>c. c \<in> set (toString10 n) \<Longrightarrow> c mod 256 = c"
    using toString10_digits [of _ n] by force
  then show ?thesis by (simp add: binary_def map_idI)
qed

lemma binary_append: "binary (a @ b) = binary a @ binary b"
  by (simp add: binary_def)

lemma length_binary: "length (binary s) = length s"
  by (simp add: binary_def)

lemma js_zeros: "js ''0000000000'' = replicate 10 48"
  by (simp add: js_def eval_nat_numeral)

lemma slice_last_pad:
  assumes "length ds \<le> 10"
  shows "slice_last 10 (js ''0000000000'' @ ds) = replicate (10 - length ds) 48 @ ds"
proof -
  have "drop (length ds) (replicate 10 (48::nat) @ ds)
      = drop (length ds) (replicate 10 48) @ ds"
    using assms by simp
  then show ?thesis
    using assms by (simp add: slice_last_def js_zeros)
qed

lemma length_slice_last: "n \<le> length s \<Longrightarrow> length (slice_last n s) = n"
  by (simp add: slice_last_def)

lemma xref_entry_length: "length (xref_entry off) = 20"
proof -
  have "length (slice_last 10 (js ''0000000000'' @ offset_str off)) = 10"
    by (rule length_slice_last) (simp add: js_def)
  then show ?thesis
    by (simp add: xref_entry_def length_binary js_def)
qed

lemma xref_entry_small:
  assumes "off < 10 ^ 10"
  shows "xref_entry (Some off)
      = replicate (10 - length (toString10 off)) 48 @ toString10 off
        @ binary (js '' 00000 n '' @ [0x0A])"
    and "parse_dec (take 10 (xref_entry (Some off))) = off"
proof -
  have l: "length (toString10 off) \<le> 10"
    using assms by (intro toStringRadix_length_upper) simp_all
  have z: "binary (replicate k 48) = replicate k 48" for k
    by (simp add: binary_def)
  show e: "xref_entry (Some off)
      = replicate (10 - length (toString10 off)) 48 @ toString10 off
        @ binary (js '' 00000 n '' @ [0x0A])"
    by (simp add: xref_entry_def slice_last_pad [OF l] binary_append binary_digits z)
  have "take 10 (xref_entry (Some off)) = replicate (10 - length (toString10 off)) 48 @ toString10 off"
    using l by (simp add: e)
  then show "parse_dec (take 10 (xref_entry (Some off))) = off"
    by (simp add: parse_dec_zeros parse_dec_toString10)
qed

lemma step_finalize_offset:
  assumes "step ns (RefFinalize j) s0 = Inr s1"
  shows "\<exists>r rest. refs s1 j = Some r \<and> ref_offset r = Some (x_offset (doc s0))
     \<and> pushed (doc s1) = pushed (doc s0)
          @ Some (binary (toString10 (ref_id r) @ js '' '' @ toString10 (ref_gen r)
                    @ js '' obj'' @ [0x0A])) # rest"
proof -
  from assms obtain r r' d' where r: "refs s0 j = Some r"
    and f: "finalize ns r (doc s0) = Inr (r', d')"
    and s1: "s1 = s0\<lparr>doc := d', refs := (refs s0)(j \<mapsto> r')\<rparr>"
    by (auto split: option.splits sum.splits)
  from finalize_pushed [OF f] finalize_result(4,5,6) [OF f] show ?thesis
    by (auto simp: s1)
qed

text \<open>
  Claim C2, amended. When an event of a run from a new document completes the document,
  the cross-reference section it pushes is the line \<open>xref\<close>, the line \<open>0 N+1\<close> for
  the \<open>N\<close> allocated references, the free entry, and for each id from 1 to \<open>N\<close> an
  entry of 20 bytes made from the offset that reference recorded. At that offset the
  stream holds the header line of the object. If the offset is below \<open>10^10\<close>, the
  entry is the offset padded with zeros to ten digits, followed by \<open> 00000 n \<close> and a line
  feed, and reading its first ten bytes as a decimal numeral gives the offset back. The
  offset a reference records is the offset counter of the writer at the moment its
  header line is pushed.
\<close>

theorem xref_entries_locate_objects:
  assumes run: "run ns evs (new_state c i f) = Inr s"
    and st: "step ns e s = Inr s'"
    and once: "finalized_once (evs @ [e])"
    and n: "None \<in> set (emitted s s')"
  shows "(\<exists>pre dict xo. emitted s s' = pre @ xref_section (x_offsets (doc s')) @ trailer_section dict xo)
     \<and> xref_section (x_offsets (doc s')) ! 0 = Some (binary (js ''xref'' @ [0x0A]))
     \<and> xref_section (x_offsets (doc s')) ! 1
          = Some (binary (js ''0 '' @ toString10 (allocated (evs @ [e]) + 1) @ [0x0A]))
     \<and> xref_section (x_offsets (doc s')) ! 2 = Some (binary (js ''0000000000 65535 f '' @ [0x0A]))
     \<and> length (xref_section (x_offsets (doc s'))) = allocated (evs @ [e]) + 3
     \<and> (\<forall>k. 1 \<le> k \<and> k \<le> allocated (evs @ [e]) \<longrightarrow>
           (\<exists>r off. refs s' k = Some r \<and> ref_offset r = Some off
              \<and> xref_section (x_offsets (doc s')) ! (k + 2) = Some (xref_entry (Some off))
              \<and> length (xref_entry (Some off)) = 20
              \<and> take (length (obj_header k)) (drop off (bytes (pushed (doc s')))) = obj_header k
              \<and> (off < 10 ^ 10 \<longrightarrow>
                    xref_entry (Some off)
                      = replicate (10 - length (toString10 off)) 48 @ toString10 off
                        @ binary (js '' 00000 n '' @ [0x0A])
                  \<and> parse_dec (take 10 (xref_entry (Some off))) = off)))
     \<and> (\<forall>j s0 s1. step ns (RefFinalize j) s0 = Inr s1 \<longrightarrow>
           (\<exists>r rest. refs s1 j = Some r \<and> ref_offset r = Some (x_offset (doc s0))
              \<and> pushed (doc s1) = pushed (doc s0)
                   @ Some (binary (toString10 (ref_id r) @ js '' '' @ toString10 (ref_gen r)
                             @ js '' obj'' @ [0x0A])) # rest))"
proof -
  have inv: "run_inv evs s" by (rule inv_run [OF run])
  have inv': "run_inv (evs @ [e]) s'" by (rule inv_step [OF inv st])
  from step_emits [OF inv st n] have w: "x_waiting (doc s') = 0"
    and p: "\<exists>pre dict xo. emitted s s' = pre @ xref_section (x_offsets (doc s')) @ trailer_section dict xo"
    by blast+
  have all: "set (finalized (evs @ [e])) = {1..allocated (evs @ [e])}"
    by (rule all_finalized [OF inv' once w])
  have len: "length (x_offsets (doc s')) = allocated (evs @ [e])"
    by (rule run_inv_len [OF inv'])
  have h: "xref_section (x_offsets (doc s')) ! 0 = Some (binary (js ''xref'' @ [0x0A]))"
    "xref_section (x_offsets (doc s')) ! 1
          = Some (binary (js ''0 '' @ toString10 (allocated (evs @ [e]) + 1) @ [0x0A]))"
    "xref_section (x_offsets (doc s')) ! 2 = Some (binary (js ''0000000000 65535 f '' @ [0x0A]))"
    by (simp_all add: xref_section_def len)
  have ent: "\<exists>r off. refs s' k = Some r \<and> ref_offset r = Some off
              \<and> xref_section (x_offsets (doc s')) ! (k + 2) = Some (xref_entry (Some off))
              \<and> length (xref_entry (Some off)) = 20
              \<and> take (length (obj_header k)) (drop off (bytes (pushed (doc s')))) = obj_header k
              \<and> (off < 10 ^ 10 \<longrightarrow>
                    xref_entry (Some off)
                      = replicate (10 - length (toString10 off)) 48 @ toString10 off
                        @ binary (js '' 00000 n '' @ [0x0A])
                  \<and> parse_dec (take 10 (xref_entry (Some off))) = off)"
    if k: "1 \<le> k \<and> k \<le> allocated (evs @ [e])" for k
  proof -
    from k all have "k \<in> set (finalized (evs @ [e]))" by simp
    from run_inv_fin [OF inv' this] obtain r off where r: "refs s' k = Some r"
      "ref_offset r = Some off" "x_offsets (doc s') ! (k - 1) = Some off" by blast
    from k len have "xref_section (x_offsets (doc s')) ! (k + 2)
        = Some (xref_entry (x_offsets (doc s') ! (k - 1)))"
      by (intro xref_section_nth) simp_all
    with r have x: "xref_section (x_offsets (doc s')) ! (k + 2) = Some (xref_entry (Some off))"
      by simp
    note hd = run_inv_header [OF inv' r(1,2)]
    from r(1,2) x hd xref_entry_length [of "Some off"] xref_entry_small [of off]
    show ?thesis by blast
  qed
  from p h ent step_finalize_offset show ?thesis
    by (simp add: xref_section_length len)
qed

lemmas run_eval = new_state_def new_document_def doc_ref_def finalize_def x_refEnd_def
  x_finalize_def doc_end_def x_write.simps Let_def trailer_def toStringRadix.simps js_def
  binary_def set_offset_def digit_char_def slice_last_def hex_bytes_def math_round_def
  replace_escapable_def sample_ns_def sample_start_def

lemma sample_run_ok: "run sample_ns sample_run sample_start = Inr sample_before"
  by (simp add: sample_before_def sample_run_def run_eval)

lemma sample_step_ok: "step sample_ns (RefFinalize 1) sample_before = Inr sample_after"
  by (simp add: sample_after_def sample_before_def sample_run_def run_eval)

lemma sample_after_fields:
  "x_waiting (doc sample_after) = 0"
  "x_offsets (doc sample_after) = [Some 21, Some 0]"
  "emitted sample_before sample_after =
     [Some (binary (js ''1 0 obj'' @ [0x0A])), Some (binary (js ''<<'' @ [0x0A] @ js ''>>'' @ [0x0A])),
      Some (binary (js ''endobj'' @ [0x0A]))]
     @ xref_section [Some 21, Some 0]
     @ trailer_section (binary (js ''<<'' @ [0x0A] @ js ''/Size 3'' @ [0x0A] @ js ''/Root 1 0 R'' @ [0x0A]
          @ js ''/Info 2 0 R'' @ [0x0A] @ js ''/ID [<0102> <0102>]'' @ [0x0A] @ js ''>>'' @ [0x0A])) 42"
  by (simp_all add: sample_after_def sample_before_def sample_run_def emitted_def xref_section_def
      xref_entry_def trailer_section_def run_eval)

lemma sample_once: "finalized_once (sample_run @ [RefFinalize 1])"
  by (simp add: finalized_once_def sample_run_def)

lemma sample_none: "None \<in> set (emitted sample_before sample_after)"
  by (simp add: sample_after_fields trailer_section_def)

lemma sample_before_fields:
  "x_waiting (doc sample_before) = 1" "x_ended (doc sample_before)"
  "emitted sample_mid sample_before =
     [Some (binary (js ''2 0 obj'' @ [0x0A])), Some (binary (js ''<<'' @ [0x0A] @ js ''>>'' @ [0x0A])),
      Some (binary (js ''endobj'' @ [0x0A]))]"
  "own_chunks sample_ns (RefFinalize 1) sample_before =
     [Some (binary (js ''1 0 obj'' @ [0x0A])), Some (binary (js ''<<'' @ [0x0A] @ js ''>>'' @ [0x0A])),
      Some (binary (js ''endobj'' @ [0x0A]))]"
  by (simp_all add: sample_before_def sample_mid_def sample_run_def emitted_def object_chunks_def
      run_eval)

theorem xref_after_all_finalized_witness:
  "run sample_ns sample_run sample_start = Inr sample_before
   \<and> step sample_ns (RefFinalize 1) sample_before = Inr sample_after
   \<and> finalized_once (sample_run @ [RefFinalize 1])
   \<and> emitted sample_mid sample_before =
       [Some (binary (js ''2 0 obj'' @ [0x0A])), Some (binary (js ''<<'' @ [0x0A] @ js ''>>'' @ [0x0A])),
        Some (binary (js ''endobj'' @ [0x0A]))]
   \<and> None \<in> set (emitted sample_before sample_after)
   \<and> End \<in> set (sample_run @ [RefFinalize 1])
   \<and> x_waiting (doc sample_after) = 0
   \<and> length (xref_section (x_offsets (doc sample_after))) = 5
   \<and> xref_section (x_offsets (doc sample_after)) ! 3 = Some (xref_entry (Some 21))
   \<and> xref_section (x_offsets (doc sample_after)) ! 4 = Some (xref_entry (Some 0))"
proof -
  from xref_after_all_finalized [OF sample_run_ok [unfolded sample_start_def] sample_step_ok sample_once]
  obtain tail where
    iff: "tail \<noteq> [] \<longleftrightarrow>
           (RefFinalize 1 = End \<and> x_waiting (doc sample_before) = 0)
           \<or> ((\<exists>j. RefFinalize 1 = RefFinalize j) \<and> x_waiting (doc sample_before) = 1
               \<and> x_ended (doc sample_before))"
    and imp: "tail \<noteq> [] \<longrightarrow>
           End \<in> set (sample_run @ [RefFinalize 1]) \<and> x_waiting (doc sample_after) = 0
         \<and> (\<forall>k. 1 \<le> k \<and> k \<le> allocated (sample_run @ [RefFinalize 1])
               \<longrightarrow> k \<in> set (finalized (sample_run @ [RefFinalize 1])))
         \<and> (\<exists>dict xo. tail = xref_section (x_offsets (doc sample_after)) @ trailer_section dict xo)
         \<and> length (xref_section (x_offsets (doc sample_after)))
             = allocated (sample_run @ [RefFinalize 1]) + 3"
    by blast
  from iff sample_before_fields(1, 2) have "tail \<noteq> []" by blast
  with imp have t: "End \<in> set (sample_run @ [RefFinalize 1])"
    "x_waiting (doc sample_after) = 0"
    "length (xref_section (x_offsets (doc sample_after)))
             = allocated (sample_run @ [RefFinalize 1]) + 3"
    by blast+
  have a: "allocated (sample_run @ [RefFinalize 1]) = 2"
    by (simp add: sample_run_def)
  from t a have "End \<in> set (sample_run @ [RefFinalize 1])"
    and "x_waiting (doc sample_after) = 0"
    and "length (xref_section (x_offsets (doc sample_after))) = 5"
    by simp_all
  moreover have "xref_section (x_offsets (doc sample_after)) ! 3 = Some (xref_entry (Some 21))"
    "xref_section (x_offsets (doc sample_after)) ! 4 = Some (xref_entry (Some 0))"
    by (simp_all add: sample_after_fields xref_section_def)
  ultimately show ?thesis
    using sample_run_ok sample_step_ok sample_once sample_none sample_before_fields(3) by blast
qed

theorem xref_entries_locate_objects_witness:
  "run sample_ns sample_run sample_start = Inr sample_before
   \<and> step sample_ns (RefFinalize 1) sample_before = Inr sample_after
   \<and> finalized_once (sample_run @ [RefFinalize 1])
   \<and> None \<in> set (emitted sample_before sample_after)
   \<and> xref_section (x_offsets (doc sample_after)) ! 1 = Some (binary (js ''0 3'' @ [0x0A]))
   \<and> xref_section (x_offsets (doc sample_after)) ! 3
        = Some (binary (js ''0000000021 00000 n '' @ [0x0A]))
   \<and> parse_dec (take 10 (xref_entry (Some 21))) = 21
   \<and> take (length (obj_header 1)) (drop 21 (bytes (pushed (doc sample_after)))) = obj_header 1"
proof -
  note t = xref_entries_locate_objects [OF sample_run_ok [unfolded sample_start_def] sample_step_ok sample_once sample_none]
  have a: "allocated (sample_run @ [RefFinalize 1]) = 2"
    by (simp add: sample_run_def)
  from t a have h: "xref_section (x_offsets (doc sample_after)) ! 1
      = Some (binary (js ''0 '' @ toString10 3 @ [0x0A]))"
    by simp
  from t have ent: "\<forall>k. 1 \<le> k \<and> k \<le> allocated (sample_run @ [RefFinalize 1]) \<longrightarrow>
           (\<exists>r off. refs sample_after k = Some r \<and> ref_offset r = Some off
              \<and> xref_section (x_offsets (doc sample_after)) ! (k + 2) = Some (xref_entry (Some off))
              \<and> length (xref_entry (Some off)) = 20
              \<and> take (length (obj_header k)) (drop off (bytes (pushed (doc sample_after)))) = obj_header k
              \<and> (off < 10 ^ 10 \<longrightarrow>
                    xref_entry (Some off)
                      = replicate (10 - length (toString10 off)) 48 @ toString10 off
                        @ binary (js '' 00000 n '' @ [0x0A])
                  \<and> parse_dec (take 10 (xref_entry (Some off))) = off))"
    by blast
  have "1 \<le> (1::nat) \<and> 1 \<le> allocated (sample_run @ [RefFinalize 1])"
    unfolding a by simp
  with ent obtain r off where k: "refs sample_after 1 = Some r" "ref_offset r = Some off"
    "xref_section (x_offsets (doc sample_after)) ! (1 + 2) = Some (xref_entry (Some off))"
    "take (length (obj_header 1)) (drop off (bytes (pushed (doc sample_after)))) = obj_header 1"
    "off < 10 ^ 10 \<longrightarrow> parse_dec (take 10 (xref_entry (Some off))) = off"
    by blast
  have "ref_offset (the (refs sample_after 1)) = Some 21"
    by (simp add: sample_after_def sample_before_def sample_run_def run_eval)
  with k(1,2) have off: "off = 21" by simp
  have x: "xref_entry (Some 21) = binary (js ''0000000021 00000 n '' @ [0x0A])"
    by (simp add: xref_entry_def slice_last_def js_def binary_def toStringRadix.simps digit_char_def)
  have c5: "xref_section (x_offsets (doc sample_after)) ! 1 = Some (binary (js ''0 3'' @ [0x0A]))"
    using h by (simp add: toStringRadix.simps digit_char_def js_def)
  have c6: "xref_section (x_offsets (doc sample_after)) ! 3
        = Some (binary (js ''0000000021 00000 n '' @ [0x0A]))"
    using k(3) x unfolding off by (simp add: eval_nat_numeral)
  have c7: "parse_dec (take 10 (xref_entry (Some 21))) = 21"
    using k(5) unfolding off by simp
  have c8: "take (length (obj_header 1)) (drop 21 (bytes (pushed (doc sample_after)))) = obj_header 1"
    using k(4) unfolding off .
  from sample_run_ok sample_step_ok sample_once sample_none c5 c6 c7 c8 show ?thesis
    by blast
qed

lemma length_large_chunk: "length large_chunk = 2000000000"
  by (simp add: large_chunk_def)

lemma large_run_ok: "run sample_ns large_run sample_start = Inr large_before"
  by (simp add: large_before_def large_run_def run_eval length_large_chunk)

lemma large_step_ok: "step sample_ns End large_before = Inr large_after"
  by (simp add: large_after_def large_before_def large_run_def run_eval length_large_chunk)

lemma large_fields:
  "ref_offset (the (refs large_after 2)) = Some 10000000039"
  "x_offsets (doc large_after) = [Some 0, Some 10000000039]"
  "None \<in> set (emitted large_before large_after)"
  by (simp_all add: large_after_def large_before_def large_run_def emitted_def run_eval
      length_large_chunk)

text \<open>
  Claim C2 as stated fails for an object that starts at or past \<open>10^10\<close> bytes: in the
  second sample document the second object records the offset 10000000039, and its
  entry in the completed cross-reference section holds only the last ten digits, which
  read as 39.
\<close>

theorem xref_entry_truncates_large_offset:
  "run sample_ns large_run sample_start = Inr large_before
   \<and> step sample_ns End large_before = Inr large_after
   \<and> finalized_once (large_run @ [End])
   \<and> None \<in> set (emitted large_before large_after)
   \<and> ref_offset (the (refs large_after 2)) = Some 10000000039
   \<and> xref_section (x_offsets (doc large_after)) ! 4 = Some (xref_entry (Some 10000000039))
   \<and> xref_entry (Some 10000000039) = binary (js ''0000000039 00000 n '' @ [0x0A])
   \<and> parse_dec (take 10 (xref_entry (Some 10000000039))) = 39"
proof -
  have o: "finalized_once (large_run @ [End])"
    by (simp add: finalized_once_def large_run_def)
  have x: "xref_section (x_offsets (doc large_after)) ! 4 = Some (xref_entry (Some 10000000039))"
    by (simp add: large_fields xref_section_def)
  have e: "xref_entry (Some 10000000039) = binary (js ''0000000039 00000 n '' @ [0x0A])"
    by (simp add: xref_entry_def slice_last_def js_def binary_def toStringRadix.simps digit_char_def)
  have p: "parse_dec (take 10 (xref_entry (Some 10000000039))) = 39"
    by (simp add: e) (simp add: parse_dec_def js_def binary_def)
  from large_run_ok large_step_ok o large_fields(3) large_fields(1) x e p show ?thesis
    by blast
qed

section \<open>Properties of the embedded font\<close>






lemma includeGlyph_fst: "fst (includeGlyph g sub) = compact_id sub g"
  by (simp add: includeGlyph_def compact_id_def split: option.splits)




lemma encode_loop_step:
  "encode_loop (g # glyphs) res font =
     encode_loop glyphs (res @ [hex4 (compact_id (subset font) (glyph_id g))])
       (font\<lparr>subset := snd (includeGlyph (glyph_id g) (subset font)),
             widths := (if widths font (compact_id (subset font) (glyph_id g)) = None
               then (widths font)(compact_id (subset font) (glyph_id g) \<mapsto> advanceWidth g * scale font)
               else widths font),
             unicode := (if unicode font (compact_id (subset font) (glyph_id g)) = None
               then (unicode font)(compact_id (subset font) (glyph_id g) := glyph_codePoints g)
               else unicode font)\<rparr>)"
  by (simp add: Let_def case_prod_beta includeGlyph_fst)

lemma encodeGlyphs_loop_eq: "encodeGlyphs_loop glyphs res font = encode_loop glyphs res font"
  by (induction glyphs arbitrary: res font) (simp_all add: Let_def case_prod_beta)

declare encode_loop.simps(2) [simp del]





lemma scale_unchanged: "scale (snd (encode_loop glyphs res font)) = scale font"
  by (induction glyphs arbitrary: res font) (simp_all add: encode_loop_step)

lemma widths_kept:
  "widths font k = Some w \<Longrightarrow> widths (snd (encode_loop glyphs res font)) k = Some w"
proof (induction glyphs arbitrary: res font)
  case Nil
  then show ?case by simp
next
  case (Cons g glyphs)
  show ?case
    unfolding encode_loop_step
    by (rule Cons.IH) (use Cons.prems in auto)
qed

lemma unicode_kept:
  "unicode font k = Some u \<Longrightarrow> unicode (snd (encode_loop glyphs res font)) k = Some u"
proof (induction glyphs arbitrary: res font)
  case Nil
  then show ?case by simp
next
  case (Cons g glyphs)
  show ?case
    unfolding encode_loop_step
    by (rule Cons.IH) (use Cons.prems in auto)
qed

lemma widths_origin:
  "widths (snd (encode_loop glyphs res font)) k = Some w \<Longrightarrow>
   widths font k = Some w \<or> (\<exists>g \<in> set glyphs. w = advanceWidth g * scale font)"
proof (induction glyphs arbitrary: res font)
  case Nil
  then show ?case by simp
next
  case (Cons g glyphs)
  define font1 where "font1 = font\<lparr>subset := snd (includeGlyph (glyph_id g) (subset font)),
             widths := (if widths font (compact_id (subset font) (glyph_id g)) = None
               then (widths font)(compact_id (subset font) (glyph_id g) \<mapsto> advanceWidth g * scale font)
               else widths font),
             unicode := (if unicode font (compact_id (subset font) (glyph_id g)) = None
               then (unicode font)(compact_id (subset font) (glyph_id g) := glyph_codePoints g)
               else unicode font)\<rparr>"
  define res1 where "res1 = res @ [hex4 (compact_id (subset font) (glyph_id g))]"
  have e: "encode_loop (g # glyphs) res font = encode_loop glyphs res1 font1"
    by (simp add: encode_loop_step font1_def res1_def)
  from Cons.prems have "widths (snd (encode_loop glyphs res1 font1)) k = Some w"
    by (simp add: e)
  from Cons.IH [OF this] have "widths font1 k = Some w
      \<or> (\<exists>g \<in> set glyphs. w = advanceWidth g * scale font1)" .
  moreover have "scale font1 = scale font" by (simp add: font1_def)
  moreover have "widths font1 k = Some w \<Longrightarrow>
      widths font k = Some w \<or> w = advanceWidth g * scale font"
    by (auto simp: font1_def split: if_splits)
  ultimately show ?case by auto
qed

lemma font_calls_widths_kept:
  "widths font k = Some w \<Longrightarrow> widths (font_calls layout cs font) k = Some w"
proof (induction cs arbitrary: font)
  case Nil
  then show ?case by simp
next
  case (Cons c cs)
  then show ?case
    by (cases c) (simp_all add: encode_def encodeGlyphs_def encodeGlyphs_loop_eq widths_kept)
qed

lemma font_calls_unicode_kept:
  "unicode font k = Some u \<Longrightarrow> unicode (font_calls layout cs font) k = Some u"
proof (induction cs arbitrary: font)
  case Nil
  then show ?case by simp
next
  case (Cons c cs)
  then show ?case
    by (cases c) (simp_all add: encode_def encodeGlyphs_def encodeGlyphs_loop_eq unicode_kept)
qed


text \<open>
  Recorded glyph metadata is written once. No call of \<open>encode\<close> or \<open>encodeGlyphs\<close>
  changes a width or a code point list that is already recorded: an entry that is set
  before a sequence of calls on the font is the same after it. The constructor seeds the
  code point list \<open>[0]\<close> at position 0. A width that a call records is the advance
  width of one of the glyphs of that call multiplied by the scale \<open>1000 / unitsPerEm\<close>.
\<close>

theorem glyph_metadata_write_once:
  "(widths font k = Some w \<longrightarrow> widths (font_calls layout cs font) k = Some w)
   \<and> (unicode font k = Some u \<longrightarrow> unicode (font_calls layout cs font) k = Some u)
   \<and> unicode (new_embedded_font a upm) 0 = Some [0]
   \<and> scale (new_embedded_font a upm) = 1000 / upm
   \<and> (widths (snd (encodeGlyphs glyphs font)) k = Some w \<longrightarrow>
        widths font k = Some w \<or> (\<exists>g \<in> set glyphs. w = advanceWidth g * scale font))
   \<and> (widths (snd (encode layout t font)) k = Some w \<longrightarrow>
        widths font k = Some w \<or> (\<exists>g \<in> set (layout t). w = advanceWidth g * scale font))"
proof (intro conjI impI)
  show "widths (font_calls layout cs font) k = Some w" if "widths font k = Some w"
    using that by (rule font_calls_widths_kept)
  show "unicode (font_calls layout cs font) k = Some u" if "unicode font k = Some u"
    using that by (rule font_calls_unicode_kept)
  show "unicode (new_embedded_font a upm) 0 = Some [0]"
    "scale (new_embedded_font a upm) = 1000 / upm"
    by (simp_all add: new_embedded_font_def)
  show "widths font k = Some w \<or> (\<exists>g \<in> set glyphs. w = advanceWidth g * scale font)"
    if "widths (snd (encodeGlyphs glyphs font)) k = Some w"
    using that by (intro widths_origin [of glyphs "[]"]) (simp add: encodeGlyphs_def encodeGlyphs_loop_eq)
  show "widths font k = Some w \<or> (\<exists>g \<in> set (layout t). w = advanceWidth g * scale font)"
    if "widths (snd (encode layout t font)) k = Some w"
    using that by (intro widths_origin [of "layout t" "[]"]) (simp add: encode_def)
qed


lemmas font_eval = encode_def encodeGlyphs_def encode_loop.simps encodeGlyphs_loop_eq
  includeGlyph_def new_embedded_font_def createSubset_def sample_layout_def Let_def hex4_def
  slice_last_def js_def toStringRadix.simps digit_char_def

theorem glyph_metadata_write_once_witness:
  "widths (snd (encode sample_layout (js ''a'') (new_embedded_font 600 2048))) 1
     = Some (500 * (1000 / 2048))
   \<and> widths (font_calls sample_layout
         [EncodeGlyphs [\<lparr>glyph_id = 97, advanceWidth = 700, glyph_codePoints = Some [98]\<rparr>]]
         (snd (encode sample_layout (js ''a'') (new_embedded_font 600 2048)))) 1
     = Some (500 * (1000 / 2048))
   \<and> unicode (new_embedded_font 600 2048) 0 = Some [0]"
proof -
  have a: "widths (snd (encode sample_layout (js ''a'') (new_embedded_font 600 2048))) 1
     = Some (500 * (1000 / 2048))"
    by (simp add: font_eval)
  note t = glyph_metadata_write_once [where font = "snd (encode sample_layout (js ''a'') (new_embedded_font 600 2048))"
      and k = 1 and w = "500 * (1000 / 2048)" and layout = sample_layout
      and cs = "[EncodeGlyphs [\<lparr>glyph_id = 97, advanceWidth = 700, glyph_codePoints = Some [98]\<rparr>]]"
      and a = 600 and upm = 2048]
  from t a show ?thesis by blast
qed


text \<open>
  Claim C9 fails on the code at position 0. The constructor records the advance width
  of glyph 0 as it is, in font units, while \<open>encode\<close> and \<open>encodeGlyphs\<close> multiply
  every width they record by the scale \<open>1000 / unitsPerEm\<close>. In a font with 2048 units
  per em whose glyphs 0 and 5 are both 600 units wide, position 0 holds 600 and
  position 1, which glyph 5 gets, holds \<open>600 * 1000 / 2048\<close>. Since an entry is written
  once, a later call with glyph 0 leaves the width at position 0 as it is.
\<close>

theorem notdef_width_not_scaled:
  "widths (new_embedded_font 600 2048) 0 = Some 600
   \<and> scale (new_embedded_font 600 2048) = 1000 / 2048
   \<and> 600 * scale (new_embedded_font 600 2048) \<noteq> 600
   \<and> widths (snd (encodeGlyphs
         [\<lparr>glyph_id = 5, advanceWidth = 600, glyph_codePoints = Some [0x41]\<rparr>,
          \<lparr>glyph_id = 0, advanceWidth = 600, glyph_codePoints = Some [0]\<rparr>]
         (new_embedded_font 600 2048))) 1 = Some (600 * (1000 / 2048))
   \<and> widths (snd (encodeGlyphs
         [\<lparr>glyph_id = 5, advanceWidth = 600, glyph_codePoints = Some [0x41]\<rparr>,
          \<lparr>glyph_id = 0, advanceWidth = 600, glyph_codePoints = Some [0]\<rparr>]
         (new_embedded_font 600 2048))) 0 = Some 600"
  by (simp add: font_eval)

section \<open>Properties of the line spacing\<close>

lemma widthOfString_lineWidth:
  "widthOfString fw s (options\<lparr>opt_lineWidth := lw\<rparr>) = widthOfString fw s options"
  by (simp add: widthOfString_def)

lemma space_is_space: "is_space 0x20"
  by (simp add: is_space_def)

lemma split_ws_word:
  "\<forall>c \<in> set v. \<not> is_space c \<Longrightarrow> v \<noteq> [] \<or> \<not> inSep
     \<Longrightarrow> split_ws inSep (v @ rest) cur = split_ws False rest (cur @ v)"
proof (induction v arbitrary: cur inSep)
  case Nil
  then show ?case by simp
next
  case (Cons c v)
  then show ?case by simp
qed

lemma join_Cons: "join sep (v # vs) = v @ (if vs = [] then [] else sep @ join sep vs)"
  by (cases vs) simp_all

lemma split_ws_join:
  "\<forall>v \<in> set (v0 # vs). v \<noteq> [] \<and> (\<forall>c \<in> set v. \<not> is_space c)
   \<Longrightarrow> split_ws inSep (join [0x20] (v0 # vs)) cur = (cur @ v0) # vs"
proof (induction vs arbitrary: v0 cur inSep)
  case Nil
  then have "split_ws inSep (v0 @ []) cur = split_ws False [] (cur @ v0)"
    by (intro split_ws_word) simp_all
  then show ?case by simp
next
  case (Cons v1 vs)
  have a: "split_ws inSep (v0 @ (0x20 # join [0x20] (v1 # vs))) cur
      = split_ws False (0x20 # join [0x20] (v1 # vs)) (cur @ v0)"
    using Cons.prems by (intro split_ws_word) simp_all
  have b: "split_ws True (join [0x20] (v1 # vs)) [] = ([] @ v1) # vs"
    using Cons.prems by (intro Cons.IH) simp_all
  from a b show ?case
    by (simp add: space_is_space join_Cons)
qed

lemma split_spaces_join:
  assumes "ws \<noteq> []" and "\<forall>v \<in> set ws. v \<noteq> [] \<and> (\<forall>c \<in> set v. \<not> is_space c)"
  shows "split_spaces (join [0x20] ws) = ws"
proof -
  from assms(1) obtain v0 vs where ws: "ws = v0 # vs" by (cases ws) auto
  with assms(2) split_ws_join [of v0 vs False "[]"] show ?thesis
    by (simp add: split_spaces_def)
qed

lemma filter_join:
  assumes "\<forall>v \<in> set ws. \<forall>c \<in> set v. \<not> is_space c"
  shows "filter (\<lambda>c. \<not> is_space c) (join [0x20] ws) = concat ws"
  using assms
proof (induction ws)
  case Nil
  then show ?case by simp
next
  case (Cons v vs)
  then have "filter (\<lambda>c. \<not> is_space c) v = v" by (simp add: filter_id_conv)
  with Cons show ?case by (simp add: join_Cons space_is_space)
qed

lemma join_ends:
  assumes "ws \<noteq> []" and "\<forall>v \<in> set ws. v \<noteq> [] \<and> (\<forall>c \<in> set v. \<not> is_space c)"
  shows "join [0x20] ws \<noteq> [] \<and> \<not> is_space (hd (join [0x20] ws))
     \<and> \<not> is_space (last (join [0x20] ws))"
  using assms
proof (induction ws)
  case Nil
  then show ?case by simp
next
  case (Cons v vs)
  show ?case
  proof (cases "vs = []")
    case True
    with Cons.prems show ?thesis by (simp add: join_Cons)
  next
    case False
    with Cons have "join [0x20] vs \<noteq> [] \<and> \<not> is_space (last (join [0x20] vs))" by simp
    with False Cons.prems show ?thesis by (simp add: join_Cons)
  qed
qed

lemma trim_join:
  assumes "ws \<noteq> []" and "\<forall>v \<in> set ws. v \<noteq> [] \<and> (\<forall>c \<in> set v. \<not> is_space c)"
  shows "trim (join [0x20] ws @ replicate k 0x20) = join [0x20] ws"
proof -
  define s where "s = join [0x20] ws"
  from join_ends [OF assms] have s: "s \<noteq> []" "\<not> is_space (hd s)" "\<not> is_space (last s)"
    by (simp_all add: s_def)
  from s(1, 2) have 1: "dropWhile is_space (s @ replicate k 0x20) = s @ replicate k 0x20"
    by (cases s) simp_all
  have 2: "dropWhile is_space (replicate k 0x20 @ rev s) = rev s"
  proof -
    have "dropWhile is_space (replicate k 0x20 @ rev s) = dropWhile is_space (rev s)"
      by (rule dropWhile_append2) (simp add: space_is_space)
    also from s(1, 3) have "\<dots> = rev s"
      by (cases s rule: rev_cases) simp_all
    finally show ?thesis .
  qed
  show ?thesis
    unfolding trim_def s_def [symmetric] by (simp add: 1 2)
qed

lemma filter_lf_join:
  assumes "\<forall>v \<in> set ws. \<forall>c \<in> set v. \<not> is_space c"
  shows "filter (\<lambda>c. c \<noteq> 0x0A) (join [0x20] ws @ replicate k 0x20)
     = join [0x20] ws @ replicate k 0x20"
proof -
  have lf: "is_space 0x0A" by (simp add: is_space_def)
  have "filter (\<lambda>c. c \<noteq> 0x0A) (join [0x20] ws) = join [0x20] ws"
    using assms
  proof (induction ws)
    case Nil
    then show ?case by simp
  next
    case (Cons v vs)
    then have "\<forall>c \<in> set v. c \<noteq> 0x0A" using lf by auto
    then have "filter (\<lambda>c. c \<noteq> 0x0A) v = v" by (simp add: filter_id_conv)
    with Cons show ?case by (simp add: join_Cons)
  qed
  then show ?thesis by simp
qed

lemma filter_space_join:
  assumes "\<forall>v \<in> set ws. \<forall>c \<in> set v. \<not> is_space c"
  shows "filter (\<lambda>c. \<not> is_space c) (join [0x20] ws @ replicate k 0x20) = concat ws"
  using filter_join [OF assms] by (simp add: space_is_space)

text \<open>The width of a font without kerning is the sum of the widths of the parts.\<close>

lemma additive_Nil:
  fixes fw :: "jsstring \<Rightarrow> real"
  assumes "\<forall>x y. fw (x @ y) = fw x + fw y"
  shows "fw [] = 0"
proof -
  from assms have "fw ([] @ []) = fw [] + fw []" by blast
  then show ?thesis by simp
qed

lemma additive_concat:
  fixes fw :: "jsstring \<Rightarrow> real"
  assumes "\<forall>x y. fw (x @ y) = fw x + fw y"
  shows "fw (concat ws) = (\<Sum>v\<leftarrow>ws. fw v)"
  by (induction ws) (simp_all add: additive_Nil [OF assms] assms)

lemma additive_join:
  fixes fw :: "jsstring \<Rightarrow> real"
  assumes "\<forall>x y. fw (x @ y) = fw x + fw y" and "ws \<noteq> []"
  shows "fw (join [0x20] ws) = (\<Sum>v\<leftarrow>ws. fw v) + (real (length ws) - 1) * fw [0x20]"
  using assms(2)
proof (induction ws)
  case Nil
  then show ?case by simp
next
  case (Cons v vs)
  show ?case
  proof (cases "vs = []")
    case True
    then show ?thesis by (simp add: join_Cons)
  next
    case False
    with Cons have "fw (join [0x20] vs) = (\<Sum>v\<leftarrow>vs. fw v) + (real (length vs) - 1) * fw [0x20]"
      by simp
    moreover have "fw (0x20 # join [0x20] vs) = fw [0x20] + fw (join [0x20] vs)"
      using assms(1) [rule_format, of "[0x20]" "join [0x20] vs"] by simp
    ultimately show ?thesis
      using False by (simp add: join_Cons assms(1) algebra_simps)
  qed
qed

lemma length_join:
  "ws \<noteq> [] \<Longrightarrow> real (length (join [0x20] ws)) = real (length (concat ws)) + (real (length ws) - 1)"
proof (induction ws)
  case Nil
  then show ?case by simp
next
  case (Cons v vs)
  then show ?case
    by (cases "vs = []") (simp_all add: join_Cons)
qed

lemma width_join:
  fixes fw :: "jsstring \<Rightarrow> real"
  assumes add: "\<forall>x y. fw (x @ y) = fw x + fw y"
    and hs: "or_default (opt_horizontalScaling options) 100 = 100"
    and ne: "ws \<noteq> []"
  shows "widthOfString fw (join [0x20] ws) options
     = widthOfString fw (concat ws) options
       + (real (length ws) - 1)
         * (widthOfString fw [0x20] no_options + or_default (opt_characterSpacing options) 0)"
proof -
  have s: "widthOfString fw [0x20] no_options = fw [0x20]"
    by (simp add: widthOfString_def no_options_def or_default_def)
  have p: "widthOfString fw x options
      = fw x + or_default (opt_characterSpacing options) 0 * (real (length x) - 1)" for x
    by (simp add: widthOfString_def hs)
  show ?thesis
    unfolding s p additive_join [OF add ne] additive_concat [OF add] length_join [OF ne]
    by (simp add: algebra_simps)
qed

text \<open>The lines a call of the callback of \<open>wrap\<close> emits, and their \<open>lastLine\<close> flags.\<close>

lemma wrap_callback_not_required:
  "\<forall>l \<in> set (drop (length (lines st)) (lines (snd (wrap_callback ww word wd False lst st)))).
      \<not> snd (snd (snd l))"
  by (simp add: wrap_callback_def Let_def emitLine_def)

lemma wrap_callback_required:
  "lines (snd (wrap_callback ww word wd True lst st)) \<noteq> []
   \<and> snd (snd (snd (last (lines (snd (wrap_callback ww word wd True lst st))))))"
  by (simp add: wrap_callback_def Let_def emitLine_def)

text \<open>
  Claim C5, amended. In a text with a width and the alignment \<open>justify\<close>, a line that
  is not empty and is emitted without a \<open>lastLine\<close> event gets the word spacing
  \<open>max(0, (lineWidth - w) / max(1, n - 1) - (widthOfString(' ') + characterSpacing))\<close>,
  where \<open>w\<close> is the width of the line with all white space removed and \<open>n\<close> the
  number of its words. If the line holds at least two words separated by single spaces,
  the font has no kerning and the horizontal scaling is 100, the spacing is positive
  exactly when the width of the line without its trailing spaces is less than the line
  width. A line emitted after a \<open>lastLine\<close> event is drawn with the alignment
  \<open>left\<close>: it keeps the word spacing option and gets nothing added, and the alignment
  option is restored afterwards. The wrapper emits \<open>lastLine\<close> before the line that a
  required break ends and before the line that ends the text, and before no line that
  a call with another break emits.
\<close>

theorem justified_line_spacing:
  assumes t: "filter (\<lambda>c. c \<noteq> 0x0A) buf \<noteq> []"
    and w: "or_default (opt_width options) 0 \<noteq> 0"
    and a: "opt_align options = Some AlignJustify"
  shows "fst (emit_line fw False lw buf options) =
       Some (max 0
         ((lw - widthOfString fw (filter (\<lambda>c. \<not> is_space c) (filter (\<lambda>c. c \<noteq> 0x0A) buf)) options)
            / max 1 (real (length (split_spaces (trim (filter (\<lambda>c. c \<noteq> 0x0A) buf)))) - 1)
          - (widthOfString fw [0x20] no_options + or_default (opt_characterSpacing options) 0)))
     \<and> ((\<forall>x y. fw (x @ y) = fw x + fw y)
          \<and> or_default (opt_horizontalScaling options) 100 = 100
          \<and> 2 \<le> length ws \<and> (\<forall>v \<in> set ws. v \<noteq> [] \<and> (\<forall>c \<in> set v. \<not> is_space c))
          \<and> buf = join [0x20] ws @ replicate k 0x20 \<longrightarrow>
          ((\<exists>sp. fst (emit_line fw False lw buf options) = Some sp \<and> 0 < sp)
            \<longleftrightarrow> widthOfString fw (join [0x20] ws) options < lw))
     \<and> fst (emit_line fw True lw buf options) = Some (or_default (opt_wordSpacing options) 0)
     \<and> opt_align (snd (emit_line fw True lw buf options)) = Some AlignJustify
     \<and> (\<forall>l \<in> set (drop (length (lines st)) (lines (snd (wrap_callback ww word wd False lst st)))).
          \<not> snd (snd (snd l)))
     \<and> lines (snd (wrap_callback ww word wd True lst st)) \<noteq> []
     \<and> snd (snd (snd (last (lines (snd (wrap_callback ww word wd True lst st))))))
     \<and> (0 < wc st \<longrightarrow> lines (wrap_end st) \<noteq> [] \<and> snd (snd (snd (last (lines (wrap_end st))))))"
proof -
  define sp where "sp = (lw - widthOfString fw (filter (\<lambda>c. \<not> is_space c) (filter (\<lambda>c. c \<noteq> 0x0A) buf)) options)
            / max 1 (real (length (split_spaces (trim (filter (\<lambda>c. c \<noteq> 0x0A) buf)))) - 1)
          - (widthOfString fw [0x20] no_options + or_default (opt_characterSpacing options) 0)"
  have 1: "fst (emit_line fw False lw buf options) = Some (max 0 sp)"
    using t w a
    by (simp add: emit_line_def fragment_wordSpacing_def Let_def widthOfString_lineWidth sp_def)
  have 2: "fst (emit_line fw True lw buf options) = Some (or_default (opt_wordSpacing options) 0)"
    using t a
    by (simp add: emit_line_def fragment_wordSpacing_def Let_def lastLine_handler_def)
  have 3: "opt_align (snd (emit_line fw True lw buf options)) = Some AlignJustify"
    using a by (simp add: emit_line_def Let_def)
  have 4: "(\<exists>s. fst (emit_line fw False lw buf options) = Some s \<and> 0 < s)
            \<longleftrightarrow> widthOfString fw (join [0x20] ws) options < lw"
    if add: "\<forall>x y. fw (x @ y) = fw x + fw y"
      and hs: "or_default (opt_horizontalScaling options) 100 = 100"
      and n: "2 \<le> length ws"
      and ok: "\<forall>v \<in> set ws. v \<noteq> [] \<and> (\<forall>c \<in> set v. \<not> is_space c)"
      and b: "buf = join [0x20] ws @ replicate k 0x20"
  proof -
    from n have ne: "ws \<noteq> []" by auto
    from ok have ok': "\<forall>v \<in> set ws. \<forall>c \<in> set v. \<not> is_space c" by blast
    define g where "g = widthOfString fw [0x20] no_options + or_default (opt_characterSpacing options) 0"
    define c where "c = widthOfString fw (concat ws) options"
    from n have m: "max 1 (real (length ws) - 1) = real (length ws) - 1"
      "0 < real (length ws) - 1" by simp_all
    have e: "sp = (lw - c) / (real (length ws) - 1) - g"
      unfolding sp_def b filter_lf_join [OF ok'] filter_space_join [OF ok']
        trim_join [OF ne ok] split_spaces_join [OF ne ok] m(1) c_def g_def ..
    have j: "widthOfString fw (join [0x20] ws) options = c + (real (length ws) - 1) * g"
      unfolding c_def g_def by (rule width_join [OF add hs ne])
    have "0 < sp \<longleftrightarrow> g < (lw - c) / (real (length ws) - 1)"
      unfolding e by auto
    also have "\<dots> \<longleftrightarrow> g * (real (length ws) - 1) < lw - c"
      using m(2) by (simp add: pos_less_divide_eq)
    also have "\<dots> \<longleftrightarrow> widthOfString fw (join [0x20] ws) options < lw"
      unfolding j by (auto simp: algebra_simps)
    finally have "0 < sp \<longleftrightarrow> widthOfString fw (join [0x20] ws) options < lw" .
    then show ?thesis
      by (auto simp: 1)
  qed
  have 5: "0 < wc st \<longrightarrow> lines (wrap_end st) \<noteq> [] \<and> snd (snd (snd (last (lines (wrap_end st)))))"
    by (simp add: wrap_end_def emitLine_def)
  from 1 2 3 4 5 wrap_callback_not_required [of st ww word wd lst]
    wrap_callback_required [of ww word wd lst st]
  show ?thesis
    unfolding sp_def by blast
qed

lemma replicate7: "replicate 7 x = [x, x, x, x, x, x, x]"
  by (simp add: numeral_eq_Suc)

lemma ceiling_15_2: "\<lceil>15 / 2 :: real\<rceil> = 8"
  by (simp add: ceiling_eq_iff)

lemmas line_eval = emit_line_def fragment_wordSpacing_def Let_def widthOfString_def courier10_def
  justified32_def no_options_def or_default_def js_def trim_def split_spaces_def is_space_def
  lastLine_handler_def

theorem justified_line_spacing_witness:
  "fst (emit_line courier10 False 100 (js ''ab cd ef '') justified32) = Some 26
   \<and> widthOfString courier10 (js ''ab cd ef'') justified32 = 48
   \<and> fst (emit_line courier10 True 100 (js ''ab cd ef '') justified32) = Some 0
   \<and> opt_align (snd (emit_line courier10 True 100 (js ''ab cd ef '') justified32)) = Some AlignJustify"
proof -
  have t: "filter (\<lambda>c. c \<noteq> 0x0A) (js ''ab cd ef '') \<noteq> []"
    by (simp add: js_def)
  have w: "or_default (opt_width justified32) 0 \<noteq> 0"
    by (simp add: justified32_def or_default_def)
  have a: "opt_align justified32 = Some AlignJustify"
    by (simp add: justified32_def)
  have f: "filter (\<lambda>c. c \<noteq> 0x0A) (js ''ab cd ef '') = js ''ab cd ef ''"
    by (simp add: js_def)
  have n: "filter (\<lambda>c. \<not> is_space c) (js ''ab cd ef '') = js ''abcdef''"
    by (simp add: js_def is_space_def)
  have s: "split_spaces (trim (js ''ab cd ef '')) = [js ''ab'', js ''cd'', js ''ef'']"
    by (simp add: js_def trim_def split_spaces_def is_space_def)
  have v: "widthOfString courier10 (js ''abcdef'') justified32 = 36"
    "widthOfString courier10 [0x20] no_options = 6"
    "widthOfString courier10 (js ''ab cd ef'') justified32 = 48"
    by (simp_all add: widthOfString_def courier10_def justified32_def no_options_def
        or_default_def js_def)
  have c: "or_default (opt_characterSpacing justified32) 0 = 0"
    "or_default (opt_wordSpacing justified32) 0 = 0"
    by (simp_all add: justified32_def or_default_def)
  from justified_line_spacing [OF t w a, of courier10 100] v(3) show ?thesis
    by (simp add: f n s v c)
qed

text \<open>
  Claim C5 as stated fails. A justified line that is not the last of its paragraph and
  whose text is narrower than the line can get no spacing at all: the line \<open>well-\<close>
  is 30 wide in a line of width 32, and the word spacing applied is 0. So do lines of
  two words that are narrower than the line, when the horizontal scaling is 50, when a
  tab without width separates the words, and when the font has kerning around the
  space. And a line in the middle of a paragraph is drawn left-aligned when a required
  break ends it, as the break after a piece of a word wider than the line does: on a
  line of width 10.5 that holds \<open>ab\<close> and a space, a word of 25 characters of width 1
  is split, its first piece of seven characters completes the line, and the line is
  emitted after a \<open>lastLine\<close> event; it gets the spacing 0 where the formula gives
  one half.
\<close>

theorem justified_spacing_not_positive:
  "widthOfString courier10 (js ''well-'') justified32 < 32
   \<and> fst (emit_line courier10 False 32 (js ''well-'') justified32) = Some 0
   \<and> widthOfString courier10 (js ''abcde fghi'') justified32_half < 32
   \<and> fst (emit_line courier10 False 32 (js ''abcde fghi'') justified32_half) = Some 0
   \<and> widthOfString tabless10 (js ''abc'' @ [0x09] @ js ''de'') justified32 < 32
   \<and> fst (emit_line tabless10 False 32 (js ''abc'' @ [0x09] @ js ''de'') justified32) = Some 0
   \<and> widthOfString kerned10 (js ''abc de'') justified32 < 32
   \<and> fst (emit_line kerned10 False 32 (js ''abc de'') justified32) = Some 0
   \<and> hd (split_lines (force_split 26 (wrap_callback unit_width) unit_width False
         (replicate 25 0x78) 25 (Some False) started_line))
       = (js ''ab xxxxxxx'', 10, 2, True)
   \<and> fst (emit_line unit_width True (21 / 2) (js ''ab xxxxxxx'') justified_narrow) = Some 0
   \<and> fst (emit_line unit_width False (21 / 2) (js ''ab xxxxxxx'') justified_narrow) = Some (1 / 2)"
proof -
  have 1: "widthOfString courier10 (js ''well-'') justified32 < 32
     \<and> fst (emit_line courier10 False 32 (js ''well-'') justified32) = Some 0"
    by (simp add: line_eval)
  have 2: "hd (split_lines (force_split 26 (wrap_callback unit_width) unit_width False
         (replicate 25 0x78) 25 (Some False) started_line))
       = (js ''ab xxxxxxx'', 10, 2, True)"
    by (simp add: started_line_def split_lines_def force_split.simps fit_loop.simps
        piece_length_def fitted_length_def wrap_callback_def Let_def canFit_def emitLine_def
        empty_line_def unit_width_def slice_to_def slice_from_def slice_index_def
        SOFT_HYPHEN_def HYPHEN_def ceiling_15_2 js_def replicate7)
  have 3: "fst (emit_line unit_width True (21 / 2) (js ''ab xxxxxxx'') justified_narrow) = Some 0
     \<and> fst (emit_line unit_width False (21 / 2) (js ''ab xxxxxxx'') justified_narrow) = Some (1 / 2)"
    by (simp add: emit_line_def fragment_wordSpacing_def Let_def widthOfString_def
        unit_width_def justified_narrow_def no_options_def or_default_def js_def trim_def
        split_spaces_def is_space_def lastLine_handler_def)
  have 4: "widthOfString courier10 (js ''abcde fghi'') justified32_half < 32
     \<and> fst (emit_line courier10 False 32 (js ''abcde fghi'') justified32_half) = Some 0"
    by (simp add: line_eval justified32_half_def)
  have 5: "widthOfString tabless10 (js ''abc'' @ [0x09] @ js ''de'') justified32 < 32
     \<and> fst (emit_line tabless10 False 32 (js ''abc'' @ [0x09] @ js ''de'') justified32) = Some 0"
    by (simp add: line_eval tabless10_def)
  have 6: "widthOfString kerned10 (js ''abc de'') justified32 < 32
     \<and> fst (emit_line kerned10 False 32 (js ''abc de'') justified32) = Some 0"
    by (simp add: line_eval kerned10_def)
  from 1 2 3 4 5 6 show ?thesis by blast
qed

section \<open>Properties of the splitting of a word\<close>

lemma slice_to_nonneg: "0 \<le> l \<Longrightarrow> slice_to word l = take (nat l) word"
  by (simp add: slice_to_def slice_index_def)

lemma slice_from_nonneg: "0 \<le> l \<Longrightarrow> slice_from word l = drop (nat l) word"
  by (simp add: slice_from_def slice_index_def)







declare force_split.simps [simp del]











end
